theory Spec2Isabelle
  imports Main "HOL-Library.Word" "HOL-Library.Multiset"
begin

section \<open>Data model of \<open>compiler/cs2/allocator.h\<close>\<close>

text \<open>
  The embedding fixes an LP64 target: \<open>size_t\<close> and pointers are 64-bit words, so
  \<open>sizeof(size_t) = 8\<close> and \<open>sizeof(Segment) = 16\<close> (a pointer followed by a
  \<open>size_t\<close>). All size and pointer arithmetic is word arithmetic and wraps as the
  machine's does. The null pointer is the address \<open>0\<close>.
\<close>

type_synonym size_t = "64 word"
type_synonym addr = "64 word"
type_synonym byte = "8 word"

definition sizeof_size_t :: size_t where
  "sizeof_size_t = 8"

definition sizeof_Segment :: size_t where
  "sizeof_Segment = 16"

text \<open>
  Memory is one array of bytes, indexed by address: Segment headers and the regions
  handed out to clients live in it side by side, so a store through one pointer is seen
  through every other pointer to the same bytes. It is total, as memory is: reading an
  address never written yields whatever is there.
\<close>

type_synonym memory = "addr \<Rightarrow> byte"

text \<open>
  A 64-bit value occupies eight bytes, least significant byte at the lowest address
  (the byte order of the little-endian LP64 targets); \<open>load64\<close> reads such a value and
  \<open>store64\<close> writes it.
\<close>

definition load64 :: "memory \<Rightarrow> addr \<Rightarrow> 64 word" where
  "load64 m p = word_rcat (rev (map (\<lambda>i. m (p + of_nat i)) [0..<8]))"

definition store64 :: "memory \<Rightarrow> addr \<Rightarrow> 64 word \<Rightarrow> memory" where
  "store64 m p v = (\<lambda>x. if x - p < 8 then ucast (drop_bit (8 * unat (x - p)) v) else m x)"

text \<open>
  \<open>struct Segment { struct Segment *next; size_t size; }\<close>: \<open>next\<close> is the eight bytes at
  the segment's address, \<open>size\<close> the eight bytes after them. \<open>load_next\<close> and \<open>load_size\<close>
  read \<open>s->next\<close> and \<open>s->size\<close>; \<open>store_next\<close> and \<open>store_size\<close> assign them.
\<close>

definition load_next :: "memory \<Rightarrow> addr \<Rightarrow> addr" where
  "load_next m s = load64 m s"

definition load_size :: "memory \<Rightarrow> addr \<Rightarrow> size_t" where
  "load_size m s = load64 m (s + sizeof_size_t)"

definition store_next :: "memory \<Rightarrow> addr \<Rightarrow> addr \<Rightarrow> memory" where
  "store_next m s q = store64 m s q"

definition store_size :: "memory \<Rightarrow> addr \<Rightarrow> size_t \<Rightarrow> memory" where
  "store_size m s n = store64 m (s + sizeof_size_t) n"

text \<open>
  The template parameter \<open>base_allocator\<close>: any class with \<open>allocate(size, name)\<close> and
  \<open>deallocate(pointer, size)\<close>. Its member functions are the two fields below, acting on
  the base allocator's own state \<open>'b\<close>; the \<open>name\<close> tag is ignored throughout the source
  and is left out.
\<close>

record 'b base_ops =
  base_allocate :: "size_t \<Rightarrow> 'b \<Rightarrow> addr \<times> 'b"
  base_deallocate :: "addr \<Rightarrow> size_t \<Rightarrow> 'b \<Rightarrow> 'b"

text \<open>
  \<open>class arena_allocator : private base_allocator\<close> with the members \<open>segment\<close> (the head
  of the chain, null when the arena is empty) and \<open>allocated\<close> (the cursor).
\<close>

record 'b arena_allocator =
  base_allocator :: 'b
  segment :: addr
  allocated :: size_t

datatype error = NullDereference

section \<open>\<open>arena_allocator\<close>\<close>

text \<open>The constructor: \<open>base_allocator(b), segment(NULL), allocated(0)\<close>.\<close>

definition arena_allocator_new :: "'b \<Rightarrow> 'b arena_allocator" where
  "arena_allocator_new b = \<lparr>base_allocator = b, segment = 0, allocated = 0\<rparr>"

text \<open>\<open>arena_size() = segmentsize - sizeof(Segment)\<close>, in \<open>size_t\<close> arithmetic.\<close>

definition arena_size :: "size_t \<Rightarrow> size_t" where
  "arena_size segmentsize = segmentsize - sizeof_Segment"

text \<open>
  The first statement of \<open>allocate\<close>:
  \<open>if (size % sizeof(size_t)) size = (size/sizeof(size_t)+1)*sizeof(size_t)\<close>.
\<close>

definition round_size :: "size_t \<Rightarrow> size_t" where
  "round_size size0 =
     (if size0 mod sizeof_size_t \<noteq> 0 then (size0 div sizeof_size_t + 1) * sizeof_size_t
      else size0)"

text \<open>
  \<open>allocate\<close>, branch by branch and store by store. The source writes through the pointer
  the base allocator returns without testing it; a null pointer there is the error
  \<open>NullDereference\<close>.
\<close>

definition allocate ::
  "'b base_ops \<Rightarrow> size_t \<Rightarrow> size_t \<Rightarrow> 'b arena_allocator \<Rightarrow> memory
     \<Rightarrow> error + (addr \<times> 'b arena_allocator \<times> memory)" where
  "allocate B segmentsize size0 a m =
     (let sz = round_size size0 in
      if segment a \<noteq> 0 \<and> arena_size segmentsize \<le> sz then
        (let (new_segment, b) = base_allocate B (sizeof_Segment + sz) (base_allocator a) in
         if new_segment = 0 then Inl NullDereference
         else
           (let m1 = store_size m new_segment (sizeof_Segment + sz);
                m2 = store_next m1 new_segment (load_next m1 (segment a));
                m3 = store_next m2 (segment a) new_segment
            in Inr (new_segment + sizeof_Segment,
                    a\<lparr>base_allocator := b\<rparr>,
                    m3)))
      else if segment a = 0 \<or> arena_size segmentsize < allocated a + sz then
        (let (new_segment, b) = base_allocate B segmentsize (base_allocator a) in
         if new_segment = 0 then Inl NullDereference
         else
           (let m1 = store_size m new_segment segmentsize;
                m2 = store_next m1 new_segment (segment a)
            in Inr (new_segment + sizeof_Segment,
                    a\<lparr>base_allocator := b, segment := new_segment, allocated := sz\<rparr>,
                    m2)))
      else
        Inr (segment a + sizeof_Segment + allocated a,
             a\<lparr>allocated := allocated a + sz\<rparr>,
             m))"

text \<open>\<open>deallocate\<close>: no deallocation.\<close>

definition deallocate ::
  "addr \<Rightarrow> size_t \<Rightarrow> 'b arena_allocator \<Rightarrow> memory \<Rightarrow> 'b arena_allocator \<times> memory" where
  "deallocate pointer sz a m = (a, m)"

text \<open>
  \<open>memcpy(dst, src, n)\<close> copies the \<open>n\<close> bytes at \<open>src\<close> to \<open>dst\<close>, one byte after the
  other from the lowest address up, in the one memory: where the two regions overlap, a
  byte already written is what a later step reads, and a destination that covers a
  Segment header overwrites that header.
\<close>

definition memcpy :: "addr \<Rightarrow> addr \<Rightarrow> size_t \<Rightarrow> memory \<Rightarrow> memory" where
  "memcpy dst src n m =
     fold (\<lambda>i mem. mem(dst + of_nat i := mem (src + of_nat i))) [0..<unat n] m"

definition reallocate ::
  "'b base_ops \<Rightarrow> size_t \<Rightarrow> size_t \<Rightarrow> addr \<Rightarrow> size_t \<Rightarrow> 'b arena_allocator \<Rightarrow> memory
     \<Rightarrow> error + (addr \<times> 'b arena_allocator \<times> memory)" where
  "reallocate B segmentsize newsize pointer sz a m =
     (if newsize \<le> sz then Inr (pointer, a, m)
      else
        (case allocate B segmentsize newsize a m of
           Inl e \<Rightarrow> Inl e
         | Inr (ret, a', m') \<Rightarrow> Inr (ret, a', memcpy ret pointer sz m')))"

text \<open>
  The destructor's loop, \<open>while (s) { next = s->next; deallocate(s, s->size); s = next; }\<close>.
  It follows \<open>next\<close> pointers through memory and need not end on a cyclic chain: the
  result is \<open>None\<close> when it does not return, and the base allocator's final state
  otherwise.
\<close>

partial_function (option) destroy_loop ::
  "'b base_ops \<Rightarrow> memory \<Rightarrow> addr \<Rightarrow> 'b \<Rightarrow> 'b option" where
  "destroy_loop B m s b =
     (if s = 0 then Some b
      else destroy_loop B m (load_next m s) (base_deallocate B s (load_size m s) b))"

definition arena_allocator_delete :: "'b base_ops \<Rightarrow> 'b arena_allocator \<Rightarrow> memory \<Rightarrow> 'b option" where
  "arena_allocator_delete B a m = destroy_loop B m (segment a) (base_allocator a)"

text \<open>\<open>operator =\<close> of the arena: \<open>return *this\<close>.\<close>

definition arena_assign :: "'b arena_allocator \<Rightarrow> 'b arena_allocator \<Rightarrow> 'b arena_allocator" where
  "arena_assign this a2 = this"

section \<open>\<open>malloc_allocator\<close> and \<open>shared_allocator\<close>\<close>

text \<open>
  \<open>malloc_allocator\<close> hands every call to the C library. \<open>malloc\<close> and \<open>free\<close> are not
  part of the repository and are parameters, acting on the process heap \<open>'h\<close>;
  \<open>deallocate\<close> drops the size it is given. Its \<open>reallocate\<close> (the library's
  \<open>realloc\<close>) is never called by the arena and has no field in \<open>base_ops\<close>.
\<close>

definition malloc_allocator ::
  "(size_t \<Rightarrow> 'h \<Rightarrow> addr \<times> 'h) \<Rightarrow> (addr \<Rightarrow> 'h \<Rightarrow> 'h) \<Rightarrow> 'h base_ops" where
  "malloc_allocator malloc free =
     \<lparr>base_allocate = (\<lambda>sz. malloc sz), base_deallocate = (\<lambda>pointer sz. free pointer)\<rparr>"

text \<open>
  \<open>shared_allocator\<close> holds the reference \<open>base_allocator &base\<close>: the address of a base
  allocator object that lives elsewhere, in a store of such objects. Its \<open>allocate\<close>
  and \<open>deallocate\<close> forward to that object.
\<close>

record shared_allocator =
  base :: addr

definition shared_allocator_new :: "addr \<Rightarrow> shared_allocator" where
  "shared_allocator_new b = \<lparr>base = b\<rparr>"

definition shared_allocate ::
  "'b base_ops \<Rightarrow> shared_allocator \<Rightarrow> size_t \<Rightarrow> (addr \<Rightarrow> 'b) \<Rightarrow> addr \<times> (addr \<Rightarrow> 'b)" where
  "shared_allocate B this sz objs =
     (let (p, b) = base_allocate B sz (objs (base this)) in (p, objs(base this := b)))"

definition shared_deallocate ::
  "'b base_ops \<Rightarrow> shared_allocator \<Rightarrow> addr \<Rightarrow> size_t \<Rightarrow> (addr \<Rightarrow> 'b) \<Rightarrow> (addr \<Rightarrow> 'b)" where
  "shared_deallocate B this pointer sz objs =
     objs(base this := base_deallocate B pointer sz (objs (base this)))"

text \<open>\<open>operator =\<close>: \<open>return *this\<close>, the reference is not copied.\<close>

definition shared_assign :: "shared_allocator \<Rightarrow> shared_allocator \<Rightarrow> shared_allocator" where
  "shared_assign this a2 = this"

text \<open>\<open>operator ==\<close> compares \<open>&left.base == &right.base\<close>; \<open>operator !=\<close> negates it.\<close>

definition shared_eq :: "shared_allocator \<Rightarrow> shared_allocator \<Rightarrow> bool" where
  "shared_eq left right = (base left = base right)"

definition shared_ne :: "shared_allocator \<Rightarrow> shared_allocator \<Rightarrow> bool" where
  "shared_ne left right = (\<not> shared_eq left right)"

section \<open>Observing the base allocator\<close>

text \<open>
  A base allocator that forwards to \<open>B\<close> and keeps the list of the calls it received, in
  order: what was requested and which pointer came back, what was released and with
  which size.
\<close>

datatype event = Alloc size_t addr | Free addr size_t

definition traced :: "'b base_ops \<Rightarrow> ('b \<times> event list) base_ops" where
  "traced B =
     \<lparr>base_allocate = (\<lambda>sz (b, log).
          let (p, b') = base_allocate B sz b in (p, (b', log @ [Alloc sz p]))),
      base_deallocate = (\<lambda>pointer sz (b, log).
          (base_deallocate B pointer sz b, log @ [Free pointer sz]))\<rparr>"

text \<open>The blocks obtained, as (address, size) pairs, and the blocks released.\<close>

fun blocks :: "event list \<Rightarrow> (addr \<times> size_t) list" where
  "blocks [] = []"
| "blocks (Alloc sz p # es) = (p, sz) # blocks es"
| "blocks (Free p sz # es) = blocks es"

fun released :: "event list \<Rightarrow> (addr \<times> size_t) list" where
  "released [] = []"
| "released (Alloc sz p # es) = released es"
| "released (Free p sz # es) = (p, sz) # released es"

text \<open>
  A small heap to run the allocators on: \<open>malloc\<close> hands out consecutive blocks from a
  break pointer, \<open>free\<close> does nothing.
\<close>

definition bump_malloc :: "size_t \<Rightarrow> addr \<Rightarrow> addr \<times> addr" where
  "bump_malloc sz brk = (brk, brk + sz)"

definition bump_free :: "addr \<Rightarrow> addr \<Rightarrow> addr" where
  "bump_free pointer brk = brk"

definition bump :: "addr base_ops" where
  "bump = malloc_allocator bump_malloc bump_free"

text \<open>Two memories to start from: all bytes zero, and each byte the low byte of its address.\<close>

definition mem0 :: memory where
  "mem0 = (\<lambda>x. 0)"

definition mem1 :: memory where
  "mem1 = (\<lambda>x. ucast x)"

section \<open>Sequences of calls\<close>

datatype call = Allocate size_t | Deallocate addr size_t | Reallocate size_t addr size_t

fun step ::
  "'b base_ops \<Rightarrow> size_t \<Rightarrow> call \<Rightarrow> 'b arena_allocator \<Rightarrow> memory
     \<Rightarrow> error + (addr option \<times> 'b arena_allocator \<times> memory)" where
  "step B segmentsize (Allocate sz) a m =
     (case allocate B segmentsize sz a m of
        Inl e \<Rightarrow> Inl e
      | Inr (p, a', m') \<Rightarrow> Inr (Some p, a', m'))"
| "step B segmentsize (Deallocate pointer sz) a m =
     (case deallocate pointer sz a m of (a', m') \<Rightarrow> Inr (None, a', m'))"
| "step B segmentsize (Reallocate newsize pointer sz) a m =
     (case reallocate B segmentsize newsize pointer sz a m of
        Inl e \<Rightarrow> Inl e
      | Inr (p, a', m') \<Rightarrow> Inr (Some p, a', m'))"

fun run ::
  "'b base_ops \<Rightarrow> size_t \<Rightarrow> call list \<Rightarrow> 'b arena_allocator \<Rightarrow> memory
     \<Rightarrow> error + (addr option list \<times> 'b arena_allocator \<times> memory)" where
  "run B segmentsize [] a m = Inr ([], a, m)"
| "run B segmentsize (c # cs) a m =
     (case step B segmentsize c a m of
        Inl e \<Rightarrow> Inl e
      | Inr (r, a', m') \<Rightarrow>
          (case run B segmentsize cs a' m' of
             Inl e \<Rightarrow> Inl e
           | Inr (rs, a'', m'') \<Rightarrow> Inr (r # rs, a'', m'')))"

section \<open>Predicates used in the statements\<close>

text \<open>
  The chain of segments hanging from a pointer: \<open>chain h p xs\<close> holds when following
  \<open>next\<close> from \<open>p\<close> visits exactly the addresses \<open>xs\<close>, in order, and then reaches null.
\<close>

fun chain :: "memory \<Rightarrow> addr \<Rightarrow> addr list \<Rightarrow> bool" where
  "chain m p [] = (p = 0)"
| "chain m p (x # xs) = (p \<noteq> 0 \<and> p = x \<and> chain m (load_next m x) xs)"

text \<open>
  Two Segment headers share no byte: neither address lies within \<open>sizeof(Segment)\<close>
  bytes above the other, in pointer arithmetic.
\<close>

definition header_apart :: "addr \<Rightarrow> addr \<Rightarrow> bool" where
  "header_apart p q \<longleftrightarrow> sizeof_Segment \<le> q - p \<and> sizeof_Segment \<le> p - q"

text \<open>Word alignment: a multiple of \<open>sizeof(size_t)\<close>.\<close>

definition aligned :: "addr \<Rightarrow> bool" where
  "aligned p \<longleftrightarrow> p mod sizeof_size_t = 0"



text \<open>Two regions, each an address and a length, have a byte in common.\<close>

definition overlap :: "addr \<Rightarrow> size_t \<Rightarrow> addr \<Rightarrow> size_t \<Rightarrow> bool" where
  "overlap p n q k =
     (n \<noteq> 0 \<and> k \<noteq> 0 \<and> unat p < unat q + unat k \<and> unat q < unat p + unat n)"

text \<open>
  \<open>in_data blk p n\<close>: the region of \<open>n\<close> bytes at \<open>p\<close> lies in the data area of the block
  \<open>blk\<close> (an address and a size), past the Segment header and within the block's end.
\<close>

definition in_data :: "addr \<times> size_t \<Rightarrow> addr \<Rightarrow> size_t \<Rightarrow> bool" where
  "in_data blk p n \<longleftrightarrow>
     unat (fst blk) + unat sizeof_Segment \<le> unat p \<and>
     unat p + unat n \<le> unat (fst blk) + unat (snd blk)"

text \<open>
  What is asked of the base allocator: the blocks it returned lie below the top of the
  address space and no two of them overlap.
\<close>

definition blocks_ok :: "(addr \<times> size_t) list \<Rightarrow> bool" where
  "blocks_ok bs \<longleftrightarrow>
     (\<forall>b\<in>set bs. unat (fst b) + unat (snd b) < 2 ^ 64) \<and>
     sorted_wrt (\<lambda>b c. \<not> overlap (fst b) (snd b) (fst c) (snd c)) bs"

text \<open>
  The invariant behind the disjointness of regions. Each region handed out so far is
  recorded with the block it was carved from: all blocks have the size \<open>S\<close>, the head is
  one of them and its cursor is within \<open>arena_size()\<close>, every region lies in the data
  area of its block, below the cursor when that block is the head, and regions of one
  block follow each other in call order.
\<close>

definition arena_inv ::
  "size_t \<Rightarrow> ('b \<times> event list) arena_allocator \<Rightarrow> ((addr \<times> size_t) \<times> addr \<times> size_t) list \<Rightarrow> bool" where
  "arena_inv S a ts \<longleftrightarrow>
     (\<forall>b\<in>set (blocks (snd (base_allocator a))). snd b = S) \<and>
     (segment a \<noteq> 0 \<longrightarrow>
        (segment a, S) \<in> set (blocks (snd (base_allocator a))) \<and> allocated a \<le> arena_size S) \<and>
     (\<forall>(b, p, n)\<in>set ts.
        b \<in> set (blocks (snd (base_allocator a))) \<and> in_data b p n \<and>
        (fst b = segment a \<longrightarrow> unat p + unat n \<le> unat (segment a) + 16 + unat (allocated a))) \<and>
     sorted_wrt (\<lambda>(b, p, n) (b', p', n'). b = b' \<longrightarrow> unat p + unat n \<le> unat p') ts"

text \<open>
  The sizes that a sequence of calls passes to \<open>allocate\<close>: the argument of each
  \<open>allocate\<close> call, and \<open>newsize\<close> of each \<open>reallocate\<close> call that grows
  (\<open>newsize > sz\<close>; the others return before they allocate).
\<close>

fun request_size :: "call \<Rightarrow> size_t option" where
  "request_size (Allocate n) = Some n"
| "request_size (Deallocate p sz) = None"
| "request_size (Reallocate newsize p sz) = (if newsize \<le> sz then None else Some newsize)"

definition requests :: "call list \<Rightarrow> size_t list" where
  "requests cs = List.map_filter request_size cs"

text \<open>
  The first size passed to \<open>allocate\<close>, rounded, is within \<open>arena_size()\<close>: the request
  that finds the arena empty fits the segment obtained for it.
\<close>

definition first_fits :: "size_t \<Rightarrow> call list \<Rightarrow> bool" where
  "first_fits S cs \<longleftrightarrow>
     (case requests cs of [] \<Rightarrow> True | n # ns \<Rightarrow> round_size n \<le> arena_size S)"

text \<open>
  The invariant behind teardown. The \<open>next\<close> fields in memory link the headers \<open>xs\<close>
  from the head to \<open>NULL\<close> without repetition; the headers with the \<open>size\<close> fields read
  from memory are the blocks obtained from the base allocator, as multisets; nothing was
  released; every block has room for its header; the head is a block of \<open>S\<close> bytes and its
  cursor is within \<open>arena_size()\<close>.
\<close>

definition tidy ::
  "size_t \<Rightarrow> ('b \<times> event list) arena_allocator \<Rightarrow> memory \<Rightarrow> addr list \<Rightarrow> bool" where
  "tidy S a m xs \<longleftrightarrow>
     chain m (segment a) xs \<and> distinct xs \<and>
     mset (map (\<lambda>x. (x, load_size m x)) xs) = mset (blocks (snd (base_allocator a))) \<and>
     released (snd (base_allocator a)) = [] \<and>
     (\<forall>b\<in>set (blocks (snd (base_allocator a))). 16 \<le> unat (snd b)) \<and>
     (segment a \<noteq> 0 \<longrightarrow>
        (segment a, S) \<in> set (blocks (snd (base_allocator a))) \<and> allocated a \<le> arena_size S)"

section \<open>Basic facts\<close>

lemma traced_allocate:
  "base_allocate B sz b = (p, b') \<Longrightarrow>
   base_allocate (traced B) sz (b, log) = (p, (b', log @ [Alloc sz p]))"
  by (simp add: traced_def)

lemma traced_deallocate:
  "base_deallocate (traced B) p sz (b, log) = (base_deallocate B p sz b, log @ [Free p sz])"
  by (simp add: traced_def)

lemmas eval_defs =
  allocate_def Let_def bump_def malloc_allocator_def bump_malloc_def bump_free_def traced_def
  round_size_def sizeof_size_t_def sizeof_Segment_def arena_size_def arena_allocator_new_def

lemma allocate_Inr_cases:
  assumes "allocate B S n a m = Inr (p, a', m')"
  obtains
    (large) q b where "segment a \<noteq> 0" and "arena_size S \<le> round_size n"
      and "base_allocate B (sizeof_Segment + round_size n) (base_allocator a) = (q, b)"
      and "q \<noteq> 0" and "p = q + sizeof_Segment" and "a' = a\<lparr>base_allocator := b\<rparr>"
      and "m' =
             store_next
               (store_next (store_size m q (sizeof_Segment + round_size n)) q
                  (load_next (store_size m q (sizeof_Segment + round_size n)) (segment a)))
               (segment a) q"
  | (fresh) q b where "segment a = 0 \<or> round_size n < arena_size S"
      and "segment a = 0 \<or> arena_size S < allocated a + round_size n"
      and "base_allocate B S (base_allocator a) = (q, b)"
      and "q \<noteq> 0" and "p = q + sizeof_Segment"
      and "a' = a\<lparr>base_allocator := b, segment := q, allocated := round_size n\<rparr>"
      and "m' = store_next (store_size m q S) q (segment a)"
  | (bump) "segment a \<noteq> 0" and "round_size n < arena_size S"
      and "allocated a + round_size n \<le> arena_size S"
      and "p = segment a + sizeof_Segment + allocated a"
      and "a' = a\<lparr>allocated := allocated a + round_size n\<rparr>" and "m' = m"
  using assms
  by (auto simp add: allocate_def Let_def not_le not_less split: prod.splits if_splits)

lemma blocks_append [simp]: "blocks (es @ fs) = blocks es @ blocks fs"
  by (induction es rule: blocks.induct) auto

lemma released_append [simp]: "released (es @ fs) = released es @ released fs"
  by (induction es rule: released.induct) auto

lemma allocate_log:
  assumes "allocate (traced B) S n a m = Inr (p, a', m')"
  shows "\<exists>es. snd (base_allocator a') = snd (base_allocator a) @ es"
  using assms
  by (cases rule: allocate_Inr_cases) (auto simp: traced_def split: prod.splits)


lemma traced_allocate_log:
  "base_allocate (traced B) k bl = (q, c) \<Longrightarrow> snd c = snd bl @ [Alloc k q]"
  by (auto simp: traced_def split: prod.splits)

lemma step_log:
  assumes "step (traced B) S c a m = Inr (r, a', m')"
  shows "\<exists>es. snd (base_allocator a') = snd (base_allocator a) @ es"
proof (cases c)
  case (Allocate n)
  with assms show ?thesis by (auto split: sum.splits dest: allocate_log)
next
  case (Deallocate q k)
  with assms show ?thesis by (simp add: deallocate_def)
next
  case (Reallocate k q n)
  with assms show ?thesis
    by (auto simp: reallocate_def split: sum.splits if_splits dest: allocate_log)
qed

lemma run_log:
  "run (traced B) S cs a m = Inr (rs, a', m') \<Longrightarrow>
   \<exists>es. snd (base_allocator a') = snd (base_allocator a) @ es"
proof (induction cs arbitrary: a m rs)
  case Nil
  then show ?case by simp
next
  case (Cons c cs)
  from Cons.prems obtain r a1 m1 rs1 where
    st: "step (traced B) S c a m = Inr (r, a1, m1)" and
    rn: "run (traced B) S cs a1 m1 = Inr (rs1, a', m')"
    by (auto split: sum.splits)
  from step_log [OF st] Cons.IH [OF rn] show ?case by auto
qed

subsection \<open>Loads and stores\<close>

lemma bit_horner_bytes:
  "bit (horner_sum uint 256 (ws :: byte list)) n \<longleftrightarrow>
     n div 8 < length ws \<and> bit (ws ! (n div 8)) (n mod 8)"
  using bit_horner_sum_uint_exp_iff [of ws n] by simp

lemma bit_load64:
  "bit (load64 m p) n \<longleftrightarrow> n < 64 \<and> bit (m (p + of_nat (n div 8))) (n mod 8)"
  by (auto simp add: load64_def word_rcat_def bit_word_of_int_iff bit_horner_bytes
      div_less_iff_less_mult)

lemma offset_small: "i < 8 \<Longrightarrow> (of_nat i :: addr) < 8 \<and> unat (of_nat i :: addr) = i"
  by (simp add: word_less_nat_alt unat_of_nat)

lemma load64_store64_same: "load64 (store64 m p v) p = v"
proof (rule bit_word_eqI)
  fix n assume n: "n < LENGTH(64)"
  then have "n div 8 < 8" by simp
  from offset_small [OF this] n show "bit (load64 (store64 m p v) p) n = bit v n"
    by (simp add: bit_load64 store64_def bit_ucast_iff bit_drop_bit_eq)
qed


lemma unat_add_nowrap:
  "unat (x::64 word) + unat y < 2 ^ 64 \<Longrightarrow> unat (x + y) = unat x + unat y"
  by (simp add: unat_word_ariths)

lemma within_iff:
  fixes p x n :: addr
  assumes "unat p + unat n \<le> 2 ^ 64"
  shows "x - p < n \<longleftrightarrow> unat p \<le> unat x \<and> unat x < unat p + unat n"
proof (cases "p \<le> x")
  case True
  then have "unat (x - p) = unat x - unat p" by (simp add: unat_sub)
  with True show ?thesis by (auto simp: word_less_nat_alt word_le_nat_alt)
next
  case False
  then have lt: "unat x < unat p" by (simp add: word_le_nat_alt)
  have "unat (x - p) = 2 ^ 64 + unat x - unat p"
    using lt unsigned_less [of p] by (simp add: unat_sub_if_size word_size)
  with lt assms show ?thesis by (simp add: word_less_nat_alt)
qed

lemma store64_outside:
  assumes "unat p + 8 \<le> 2 ^ 64" and "\<not> (unat p \<le> unat x \<and> unat x < unat p + 8)"
  shows "store64 m p v x = m x"
proof -
  from assms(1) have "unat p + unat (8 :: addr) \<le> 2 ^ 64" by simp
  from within_iff [OF this, of x] assms(2) show ?thesis by (simp add: store64_def)
qed

lemma load64_cong:
  assumes "unat q + 8 \<le> 2 ^ 64"
    and "\<And>x. unat q \<le> unat x \<Longrightarrow> unat x < unat q + 8 \<Longrightarrow> m' x = m x"
  shows "load64 m' q = load64 m q"
proof -
  have "m' (q + of_nat i) = m (q + of_nat i)" if "i < 8" for i
  proof -
    from that have u: "unat (of_nat i :: addr) = i" by (simp add: unat_of_nat)
    with that assms(1) have "unat q + unat (of_nat i :: addr) < 2 ^ 64" by simp
    from unat_add_nowrap [OF this] have "unat (q + of_nat i) = unat q + i" by (simp add: u)
    with that show ?thesis by (intro assms(2)) simp_all
  qed
  then have "map (\<lambda>i. m' (q + of_nat i)) [0..<8] = map (\<lambda>i. m (q + of_nat i)) [0..<8]"
    by (intro map_cong) auto
  then show ?thesis by (simp only: load64_def)
qed

lemma load64_store64_other:
  assumes "unat p + 8 \<le> 2 ^ 64" and "unat q + 8 \<le> 2 ^ 64"
    and "unat p + 8 \<le> unat q \<or> unat q + 8 \<le> unat p"
  shows "load64 (store64 m p v) q = load64 m q"
  using assms by (intro load64_cong store64_outside) auto

lemma store64_low_byte: "store64 m p v p = ucast v"
  by (simp add: store64_def)

lemma load64_low_byte: "ucast (load64 m p) = m p"
  by (rule bit_word_eqI) (auto simp add: bit_ucast_iff bit_load64)

lemma copy_prefix:
  fixes n :: "64 word" and dst src :: addr and m :: memory
  assumes "k \<le> unat n" and d: "unat dst + unat n \<le> 2 ^ 64"
  shows "(\<forall>x. \<not> (unat dst \<le> unat x \<and> unat x < unat dst + k) \<longrightarrow>
            fold (\<lambda>i mem. mem(dst + of_nat i := mem (src + of_nat i))) [0..<k] m x = m x)"
  using assms(1)
proof (induction k)
  case 0
  then show ?case by simp
next
  case (Suc k)
  then have k: "k < unat n" by simp
  have "unat n < 2 ^ 64" using unsigned_less [of n] by simp
  with k have "k < 2 ^ 64" by simp
  then have u: "unat (of_nat k :: addr) = k" by (simp add: unat_of_nat)
  with k d have "unat dst + unat (of_nat k :: addr) < 2 ^ 64" by simp
  from unat_add_nowrap [OF this] have dk: "unat (dst + of_nat k) = unat dst + k" by (simp add: u)
  from Suc show ?case by (auto simp: dk)
qed

lemma memcpy_outside:
  assumes "unat dst + unat n \<le> 2 ^ 64"
    and "\<not> (unat dst \<le> unat x \<and> unat x < unat dst + unat n)"
  shows "memcpy dst src n m x = m x"
  using copy_prefix [OF le_refl assms(1), of src m] assms(2) by (simp add: memcpy_def)


lemma store64_outside_word: "\<not> x - p < 8 \<Longrightarrow> store64 m p v x = m x"
  by (simp add: store64_def)

lemma load64_cong_word:
  assumes "\<And>i. i < 8 \<Longrightarrow> m' (q + of_nat i) = m (q + of_nat i)"
  shows "load64 m' q = load64 m q"
proof -
  have "map (\<lambda>i. m' (q + of_nat i)) [0..<8] = map (\<lambda>i. m (q + of_nat i)) [0..<8]"
    by (intro map_cong) (auto simp: assms)
  then show ?thesis by (simp only: load64_def)
qed

lemma apart_cells:
  fixes p q :: addr
  assumes "16 \<le> q - p" and "16 \<le> p - q" and "i < 8"
  shows "\<not> q + of_nat i - p < 8" and "\<not> q + of_nat i - (p + 8) < 8"
    and "\<not> q + 8 + of_nat i - p < 8" and "\<not> q + 8 + of_nat i - (p + 8) < 8"
proof -
  define d where "d = q - p"
  let ?j = "of_nat i :: addr"
  from assms(3) have j: "unat ?j = i" by (simp add: unat_of_nat)
  have pq: "p - q = - d" by (simp add: d_def)
  from assms(1) have d16: "16 \<le> unat d" by (simp add: d_def word_le_nat_alt)
  then have "0 < unat d" by simp
  then have "unat (- d) = 2 ^ 64 - unat d"
    using unat_sub_if_size [of 0 d] by (simp add: word_size)
  with assms(2) pq have dmax: "unat d \<le> 2 ^ 64 - 16" by (simp add: word_le_nat_alt)
  have e1: "q + ?j - p = d + ?j" by (simp add: d_def)
  have e2: "q + ?j - (p + 8) = d + ?j - 8" by (simp add: d_def)
  have e3: "q + 8 + ?j - p = d + (?j + 8)" by (simp add: d_def)
  have e4: "q + 8 + ?j - (p + 8) = d + ?j" by (simp add: d_def)
  have "unat d + unat ?j < 2 ^ 64" using dmax assms(3) j by simp
  from unat_add_nowrap [OF this] have dj: "unat (d + ?j) = unat d + i" by (simp only: j)
  have "unat ?j + unat (8 :: addr) < 2 ^ 64" using j assms(3) by simp
  from unat_add_nowrap [OF this] have j8: "unat (?j + 8) = i + 8" by (simp only: j; simp)
  have "unat d + unat (?j + 8) < 2 ^ 64" using dmax assms(3) j8 by simp
  from unat_add_nowrap [OF this] have dj8: "unat (d + (?j + 8)) = unat d + i + 8"
    by (simp only: j8; simp)
  have "8 \<le> d + ?j" using dj d16 by (simp only: word_le_nat_alt; simp)
  then have "unat (d + ?j - 8) = unat (d + ?j) - unat (8 :: addr)" by (rule unat_sub)
  then have dm: "unat (d + ?j - 8) = unat d + i - 8" by (simp only: dj; simp)
  show "\<not> q + ?j - p < 8" using dj d16 by (simp only: e1 word_less_nat_alt; simp)
  show "\<not> q + ?j - (p + 8) < 8" using dm d16 by (simp only: e2 word_less_nat_alt; simp)
  show "\<not> q + 8 + ?j - p < 8" using dj8 by (simp only: e3 word_less_nat_alt; simp)
  show "\<not> q + 8 + ?j - (p + 8) < 8" using dj d16 by (simp only: e4 word_less_nat_alt; simp)
qed

lemma same_header_cells:
  fixes s :: addr
  assumes "i < 8"
  shows "\<not> s + 8 + of_nat i - s < 8" and "\<not> s + of_nat i - (s + 8) < 8"
proof -
  let ?j = "of_nat i :: addr"
  from assms have j: "unat ?j = i" by (simp add: unat_of_nat)
  have "unat (8 :: addr) + unat ?j < 2 ^ 64" using j assms by simp
  from unat_add_nowrap [OF this] have "unat (8 + ?j) = 8 + i" by (simp only: j; simp)
  then show "\<not> s + 8 + ?j - s < 8" by (simp add: word_less_nat_alt)
  have "unat (?j - 8) = unat ?j + 2 ^ 64 - 8"
    using unat_sub_if_size [of ?j 8] j assms by (simp add: word_size)
  then show "\<not> s + ?j - (s + 8) < 8" using j by (simp add: word_less_nat_alt)
qed

lemma load_store_same [simp]:
  "load_next (store_next m s q) s = q"
  "load_size (store_size m s n) s = n"
  "load_size (store_next m s q) s = load_size m s"
  "load_next (store_size m s n) s = load_next m s"
proof -
  show "load_next (store_next m s q) s = q"
    by (simp add: load_next_def store_next_def load64_store64_same)
  show "load_size (store_size m s n) s = n"
    by (simp add: load_size_def store_size_def load64_store64_same)
  show "load_size (store_next m s q) s = load_size m s"
    unfolding load_size_def store_next_def sizeof_size_t_def
    by (intro load64_cong_word store64_outside_word same_header_cells)
  show "load_next (store_size m s n) s = load_next m s"
    unfolding load_next_def store_size_def sizeof_size_t_def
    by (intro load64_cong_word store64_outside_word same_header_cells)
qed

lemma load_store_apart:
  assumes "header_apart p s"
  shows "load_next (store_next m p q) s = load_next m s"
    and "load_next (store_size m p n) s = load_next m s"
    and "load_size (store_next m p q) s = load_size m s"
    and "load_size (store_size m p n) s = load_size m s"
proof -
  from assms have a: "16 \<le> s - p" "16 \<le> p - s"
    by (simp_all add: header_apart_def sizeof_Segment_def)
  note c = apart_cells [OF a]
  show "load_next (store_next m p q) s = load_next m s"
    unfolding load_next_def store_next_def
    by (intro load64_cong_word store64_outside_word c(1))
  show "load_next (store_size m p n) s = load_next m s"
    unfolding load_next_def store_size_def sizeof_size_t_def
    by (intro load64_cong_word store64_outside_word c(2))
  show "load_size (store_next m p q) s = load_size m s"
    unfolding load_size_def store_next_def sizeof_size_t_def
    by (intro load64_cong_word store64_outside_word c(3))
  show "load_size (store_size m p n) s = load_size m s"
    unfolding load_size_def store_size_def sizeof_size_t_def
    by (intro load64_cong_word store64_outside_word c(4))
qed

lemma header_apart_sym: "header_apart p q \<Longrightarrow> header_apart q p"
  by (simp add: header_apart_def)

lemma header_apartI:
  assumes "unat p + 16 \<le> unat q" and "unat q + 16 \<le> 2 ^ 64"
  shows "header_apart p q"
proof -
  from assms(1) have le: "p \<le> q" by (simp add: word_le_nat_alt)
  then have a: "unat (q - p) = unat q - unat p" by (simp add: unat_sub)
  from assms(1) have "\<not> unat q \<le> unat p" by simp
  then have b: "unat (p - q) = unat p + 2 ^ 64 - unat q"
    using unat_sub_if_size [of p q] by (simp add: word_size)
  from assms have "16 \<le> unat q - unat p" and "16 \<le> unat p + 2 ^ 64 - unat q"
    by linarith+
  then show ?thesis
    by (simp add: header_apart_def sizeof_Segment_def word_le_nat_alt a b)
qed

section \<open>The three branches of \<open>allocate\<close>\<close>

text \<open>
  C1. The cursor \<open>allocated\<close> does not stay within \<open>arena_size()\<close>: on an empty arena the
  guard \<open>segment && size >= arena_size()\<close> fails for want of a head, the request falls
  into the second branch, and the cursor is set to the rounded size whatever it is. With
  64-byte segments the first call \<open>allocate(1000)\<close> obtains one block of 64 bytes, leaves
  \<open>allocated = 1000\<close> above \<open>arena_size() = 48\<close>, and returns a region of 1000 bytes that
  does not fit the block's data area.
\<close>

theorem first_large_allocation_breaks_cursor_bound:
  "\<exists>p a m. allocate (traced bump) 64 1000 (arena_allocator_new (4096, [])) mem0 = Inr (p, a, m) \<and>
     blocks (snd (base_allocator a)) = [(4096, 64)] \<and> p = 4112 \<and>
     allocated a = 1000 \<and> arena_size 64 = 48 \<and> \<not> allocated a \<le> arena_size 64 \<and>
     \<not> in_data (4096, 64) p (round_size 1000)"
  by (simp add: eval_defs in_data_def)

text \<open>
  The cursor bound is kept by every call of \<open>allocate\<close> but that one: a request on an empty
  arena whose rounded size is above \<open>arena_size()\<close>.
\<close>

theorem allocate_keeps_cursor_bound:
  assumes "allocated a \<le> arena_size S"
    and "segment a = 0 \<longrightarrow> round_size n \<le> arena_size S"
    and "allocate B S n a m = Inr (p, a', m')"
  shows "allocated a' \<le> arena_size S"
  using assms(3)
proof (cases rule: allocate_Inr_cases)
  case (large q b)
  with assms(1) show ?thesis by simp
next
  case (fresh q b)
  with assms(2) show ?thesis by auto
next
  case bump
  then show ?thesis by simp
qed

theorem allocate_keeps_cursor_bound_witness:
  "(case allocate bump 64 16 (arena_allocator_new 4096) mem0 of
      Inl e \<Rightarrow> False
    | Inr (p, a', m') \<Rightarrow> allocated a' = 16 \<and> allocated a' \<le> arena_size 64)"
proof -
  let ?a = "arena_allocator_new (4096 :: addr)"
  obtain p a' m' where al: "allocate bump 64 16 ?a mem0 = Inr (p, a', m')"
    and c: "allocated a' = 16"
    by (simp add: eval_defs)
  have h1: "allocated ?a \<le> arena_size 64" by (simp add: eval_defs)
  have h2: "segment ?a = 0 \<longrightarrow> round_size 16 \<le> arena_size 64" by (simp add: eval_defs)
  from allocate_keeps_cursor_bound [OF h1 h2 al] c show ?thesis unfolding al by simp
qed

text \<open>
  C2. A request whose rounded size reaches \<open>arena_size()\<close>, on an arena that has a head:
  the base allocator is asked for exactly \<open>sizeof(Segment)\<close> plus the rounded size (the
  one event added to its log), the new header records that size, the new segment is
  linked between the head and the head's old successor, the members \<open>segment\<close> and
  \<open>allocated\<close> keep their values, and the result is the address just past the new
  header. The block obtained is taken to be non-null and its header to share no byte
  with the head's.
\<close>

theorem allocate_large_dedicated_segment:
  assumes "segment a \<noteq> 0" and "arena_size S \<le> round_size n"
    and "base_allocator a = (b0, log)"
    and "base_allocate B (sizeof_Segment + round_size n) b0 = (p, b)"
    and "p \<noteq> 0" and "header_apart p (segment a)"
  shows "\<exists>m'. allocate (traced B) S n a m =
       Inr (p + sizeof_Segment,
            a\<lparr>base_allocator := (b, log @ [Alloc (sizeof_Segment + round_size n) p])\<rparr>,
            m') \<and>
     m' = store_next
            (store_next (store_size m p (sizeof_Segment + round_size n)) p
               (load_next m (segment a)))
            (segment a) p \<and>
     load_size m' p = sizeof_Segment + round_size n \<and>
     load_next m' p = load_next m (segment a) \<and>
     load_next m' (segment a) = p \<and>
     load_size m' (segment a) = load_size m (segment a)"
proof -
  note ps = load_store_apart [OF assms(6)]
  note sp = load_store_apart [OF header_apart_sym [OF assms(6)]]
  from assms(1-5) show ?thesis
    by (simp add: allocate_def Let_def traced_allocate ps sp)
qed

theorem allocate_large_dedicated_segment_witness:
  "\<exists>m'. allocate (traced bump) 64 1000
       \<lparr>base_allocator = (4160, []), segment = 4096, allocated = 16\<rparr> mem0 =
     Inr (4176,
          \<lparr>base_allocator = (5176, [Alloc 1016 4160]), segment = 4096, allocated = 16\<rparr>,
          m') \<and>
     m' = store_next (store_next (store_size mem0 4160 1016) 4160 (load_next mem0 4096)) 4096 4160 \<and>
     load_size m' 4160 = 1016 \<and> load_next m' 4160 = load_next mem0 4096 \<and>
     load_next m' 4096 = 4160 \<and> load_size m' 4096 = load_size mem0 4096"
proof -
  let ?a = "\<lparr>base_allocator = (4160::addr, []::event list), segment = 4096, allocated = 16\<rparr>"
  have h1: "segment ?a \<noteq> 0" by simp
  have h2: "arena_size 64 \<le> round_size 1000" by (simp add: eval_defs)
  have h3: "base_allocator ?a = (4160, [])" by simp
  have h4: "base_allocate bump (sizeof_Segment + round_size 1000) 4160 = (4160, 5176)"
    by (simp add: eval_defs)
  have h5: "(4160::addr) \<noteq> 0" by simp
  have h6: "header_apart 4160 (segment ?a)" by (simp add: header_apart_def sizeof_Segment_def)
  have r: "round_size 1000 = 1000" by (simp add: eval_defs)
  show ?thesis
    using allocate_large_dedicated_segment [OF h1 h2 h3 h4 h5 h6, of mem0]
    by (simp add: r sizeof_Segment_def)
qed

text \<open>
  C6. A request whose rounded size is below \<open>arena_size()\<close>, when there is no head or
  \<open>allocated + size > arena_size()\<close> (the comparison the source makes, in \<open>size_t\<close>
  arithmetic): the base allocator is asked for exactly \<open>segmentsize\<close> bytes, the new
  segment's header records \<open>segmentsize\<close> and points to the old head, it becomes the
  head, the cursor is the rounded size, and the result is the address just past the new
  header.
\<close>

theorem allocate_new_head_segment:
  assumes "round_size n < arena_size S"
    and "segment a = 0 \<or> arena_size S < allocated a + round_size n"
    and "base_allocator a = (b0, log)"
    and "base_allocate B S b0 = (p, b)"
    and "p \<noteq> 0"
  shows "\<exists>m'. allocate (traced B) S n a m =
       Inr (p + sizeof_Segment,
            a\<lparr>base_allocator := (b, log @ [Alloc S p]), segment := p, allocated := round_size n\<rparr>,
            m') \<and>
     m' = store_next (store_size m p S) p (segment a) \<and>
     load_size m' p = S \<and> load_next m' p = segment a"
  using assms
  by (auto simp add: allocate_def Let_def traced_allocate)

theorem allocate_new_head_segment_witness:
  "\<exists>m'. allocate (traced bump) 64 16
       \<lparr>base_allocator = (4160, []), segment = 4096, allocated = 48\<rparr> mem0 =
     Inr (4176,
          \<lparr>base_allocator = (4224, [Alloc 64 4160]), segment = 4160, allocated = 16\<rparr>,
          m') \<and>
     m' = store_next (store_size mem0 4160 64) 4160 4096 \<and>
     load_size m' 4160 = 64 \<and> load_next m' 4160 = 4096"
proof -
  let ?a = "\<lparr>base_allocator = (4160::addr, []::event list), segment = 4096, allocated = 48\<rparr>"
  have h1: "round_size 16 < arena_size 64" by (simp add: eval_defs)
  have h2: "segment ?a = 0 \<or> arena_size 64 < allocated ?a + round_size 16"
    by (simp add: eval_defs)
  have h3: "base_allocator ?a = (4160, [])" by simp
  have h4: "base_allocate bump 64 4160 = (4160, 4224)" by (simp add: eval_defs)
  have h5: "(4160::addr) \<noteq> 0" by simp
  have r: "round_size 16 = 16" by (simp add: eval_defs)
  show ?thesis
    using allocate_new_head_segment [OF h1 h2 h3 h4 h5, of mem0]
    by (simp add: r sizeof_Segment_def)
qed

text \<open>
  C7. A request whose rounded size reaches \<open>arena_size()\<close>, on an arena that has a head,
  changes neither \<open>segment\<close> nor \<open>allocated\<close>; a following request that the head can hold
  is served at the head's data start plus the old cursor, right after the last region
  taken from the head.
\<close>

theorem allocate_large_keeps_head_and_cursor:
  assumes "segment a \<noteq> 0" and "arena_size S \<le> round_size n"
    and "allocate B S n a m = Inr (p, a', m')"
  shows "segment a' = segment a \<and> allocated a' = allocated a \<and>
    (\<forall>k. round_size k < arena_size S \<and> \<not> arena_size S < allocated a + round_size k \<longrightarrow>
       allocate B S k a' m' =
         Inr (segment a + sizeof_Segment + allocated a,
              a'\<lparr>allocated := allocated a + round_size k\<rparr>, m'))"
  using assms
  by (auto simp add: allocate_def Let_def split: prod.splits if_splits)

theorem allocate_large_keeps_head_and_cursor_witness:
  "(case allocate bump 64 1000 \<lparr>base_allocator = 4160, segment = 4096, allocated = 16\<rparr> mem0 of
      Inl e \<Rightarrow> False
    | Inr (p, a', m') \<Rightarrow>
        segment a' = 4096 \<and> allocated a' = 16 \<and>
        allocate bump 64 8 a' m' = Inr (4128, a'\<lparr>allocated := 24\<rparr>, m'))"
proof -
  let ?a = "\<lparr>base_allocator = 4160::addr, segment = 4096, allocated = 16\<rparr>"
  obtain p a' m' where al: "allocate bump 64 1000 ?a mem0 = Inr (p, a', m')"
    by (simp add: eval_defs)
  have h1: "segment ?a \<noteq> 0" by simp
  have h2: "arena_size 64 \<le> round_size 1000" by (simp add: eval_defs)
  have k: "round_size 8 < arena_size 64 \<and> \<not> arena_size 64 < allocated ?a + round_size 8"
    by (simp add: eval_defs)
  from allocate_large_keeps_head_and_cursor [OF h1 h2 al] k
  have "segment a' = 4096 \<and> allocated a' = 16 \<and>
    allocate bump 64 8 a' m' =
      Inr (4096 + sizeof_Segment + 16, a'\<lparr>allocated := 16 + round_size 8\<rparr>, m')"
    by simp
  then show ?thesis
    by (simp add: al sizeof_Segment_def round_size_def sizeof_size_t_def)
qed

section \<open>Alignment\<close>

lemma aligned_unat: "aligned p \<longleftrightarrow> unat p mod 8 = 0"
  by (simp add: aligned_def sizeof_size_t_def word_unat_eq_iff unat_mod)


lemma aligned_mult: "aligned (sizeof_size_t * k)"
proof -
  have "unat (8 * k :: 64 word) mod 8 = (8 * unat k) mod 2^64 mod 8"
    by (simp add: unat_word_ariths)
  also have "\<dots> = (8 * unat k) mod 8"
    by (rule mod_mod_cancel) simp
  finally show ?thesis by (simp add: aligned_unat sizeof_size_t_def)
qed


lemma aligned_round_size: "aligned (round_size n)"
  using aligned_mult [of "n div sizeof_size_t + 1"]
  by (auto simp: round_size_def aligned_def mult.commute)









section \<open>Regions handed out\<close>

lemma unat_sizeof_Segment [simp]: "unat sizeof_Segment = 16"
  by (simp add: sizeof_Segment_def)

lemma arena_size_unat: "sizeof_Segment \<le> S \<Longrightarrow> unat (arena_size S) = unat S - 16"
  by (simp add: arena_size_def unat_sub)

lemma round_size_unat:
  assumes "unat n + 8 < 2 ^ 64"
  shows "unat (round_size n) = (if unat n mod 8 \<noteq> 0 then (unat n div 8 + 1) * 8 else unat n)"
proof -
  have d: "unat (n div 8) = unat n div 8" by (simp add: unat_div)
  have l: "unat n div 8 + 1 < 2 ^ 64" using assms by simp
  have s: "unat (n div 8 + 1) = unat n div 8 + 1"
    using l by (simp add: unat_word_ariths d)
  have "(unat n div 8 + 1) * 8 \<le> unat n + 8" by simp
  with assms have m: "(unat n div 8 + 1) * 8 < 2 ^ 64" by linarith
  have t: "unat ((n div 8 + 1) * 8) = (unat n div 8 + 1) * 8"
    using m by (simp add: unat_word_ariths s)
  have w: "(n mod 8 = 0) = (unat n mod 8 = 0)"
    by (simp add: word_unat_eq_iff unat_mod)
  show ?thesis
  proof (cases "unat n mod 8 = 0")
    case True
    then show ?thesis by (simp add: round_size_def sizeof_size_t_def w)
  next
    case False
    then have "round_size n = (n div 8 + 1) * 8"
      by (simp only: round_size_def sizeof_size_t_def w if_True not_False_eq_True)
    with False show ?thesis by (simp only: t if_True not_False_eq_True)
  qed
qed

lemma round_size_bounds:
  assumes S: "sizeof_Segment \<le> S" and al: "unat S mod 8 = 0" and n: "n \<le> arena_size S"
  shows "unat n \<le> unat (round_size n)" and "unat (round_size n) \<le> unat S - 16"
    and "unat (round_size n) < unat n + 8"
proof -
  from n have N: "unat n \<le> unat S - 16"
    by (simp add: word_le_nat_alt arena_size_unat [OF S])
  from S have S16: "16 \<le> unat S" by (simp add: word_le_nat_alt)
  have "unat S < 2 ^ 64" using unsigned_less [of S] by simp
  with N S16 have b: "unat n + 8 < 2 ^ 64" by linarith
  note r = round_size_unat [OF b]
  show "unat n \<le> unat (round_size n)"
    unfolding r by presburger
  from al S16 have "(unat S - 16) mod 8 = 0" by presburger
  with N show "unat (round_size n) \<le> unat S - 16"
    unfolding r by presburger
  show "unat (round_size n) < unat n + 8"
    unfolding r by presburger
qed



lemma blocks_ok_prefix: "blocks_ok (bs @ cs) \<Longrightarrow> blocks_ok bs"
  by (auto simp: blocks_ok_def sorted_wrt_append)

lemma blocks_ok_bound: "blocks_ok bs \<Longrightarrow> b \<in> set bs \<Longrightarrow> unat (fst b) + unat (snd b) < 2 ^ 64"
  by (auto simp: blocks_ok_def)

lemma blocks_ok_new_address:
  assumes "blocks_ok (bs @ [(q, S)])" and "b \<in> set bs" and "snd b = S" and "S \<noteq> 0"
  shows "fst b \<noteq> q"
proof
  assume "fst b = q"
  from assms(1,2) have "\<not> overlap (fst b) (snd b) q S"
    by (auto simp: blocks_ok_def sorted_wrt_append)
  moreover from assms(4) have "0 < unat S" by (simp add: unat_gt_0)
  ultimately show False using \<open>fst b = q\<close> assms(3,4) by (simp add: overlap_def)
qed

lemma unat_plus_header:
  assumes "unat q + unat S < 2 ^ 64" and "sizeof_Segment \<le> S"
  shows "unat (q + sizeof_Segment) = unat q + 16"
proof -
  from assms(2) have "16 \<le> unat S" by (simp add: word_le_nat_alt)
  with assms(1) have "unat q + unat sizeof_Segment < 2 ^ 64" by simp
  then show ?thesis by (simp add: unat_word_ariths)
qed


lemma arena_inv_allocate:
  assumes S: "sizeof_Segment \<le> S" and al8: "unat S mod 8 = 0" and half: "unat S \<le> 2 ^ 63"
    and n: "n \<le> arena_size S"
    and inv: "arena_inv S a ts"
    and al: "allocate (traced B) S n a m = Inr (p, a', m')"
    and ok: "blocks_ok (blocks (snd (base_allocator a')))"
  shows "\<exists>b. arena_inv S a' (ts @ [(b, p, round_size n)])"
proof -
  let ?bs = "blocks (snd (base_allocator a))"
  let ?r = "round_size n"
  let ?P = "\<lambda>(b, p, n) (b', p', n'). b = b' \<longrightarrow> unat p + unat n \<le> unat (p'::addr)"
  from S have S16: "16 \<le> unat S" by (simp add: word_le_nat_alt)
  then have S0: "S \<noteq> 0" by auto
  note A = arena_size_unat [OF S]
  from round_size_bounds [OF S al8 n] have rA: "unat ?r \<le> unat S - 16" by simp
  from inv have sizes: "\<forall>b\<in>set ?bs. snd b = S"
    and head: "segment a \<noteq> 0 \<Longrightarrow> (segment a, S) \<in> set ?bs \<and> allocated a \<le> arena_size S"
    and regs: "\<forall>(b, p, n)\<in>set ts. b \<in> set ?bs \<and> in_data b p n \<and>
        (fst b = segment a \<longrightarrow> unat p + unat n \<le> unat (segment a) + 16 + unat (allocated a))"
    and ord: "sorted_wrt ?P ts"
    by (simp_all add: arena_inv_def)
  have new_block: "arena_inv S a' (ts @ [((q, S), p, ?r)])"
    if log: "snd (base_allocator a') = snd (base_allocator a) @ [Alloc S q]"
      and p: "p = q + sizeof_Segment"
      and hd: "segment a' = segment a \<and> allocated a' = allocated a \<and> segment a \<noteq> 0 \<or>
               segment a' = q \<and> allocated a' = ?r"
    for q
  proof -
    from ok have ok': "blocks_ok (?bs @ [(q, S)])" by (simp add: log)
    from blocks_ok_bound [OF ok', of "(q, S)"] have qS: "unat q + unat S < 2 ^ 64" by simp
    have up: "unat p = unat q + 16" unfolding p by (rule unat_plus_header [OF qS S])
    have old: "fst b \<noteq> q" if "b \<in> set ?bs" for b
      using blocks_ok_new_address [OF ok' that] sizes that S0 by simp
    have oldq: "b \<noteq> (q, S)" if "b \<in> set ?bs" for b using old [OF that] by auto
    have ind: "in_data (q, S) p ?r"
      using rA S16 by (simp add: in_data_def up)
    have c1: "\<forall>b\<in>set (blocks (snd (base_allocator a'))). snd b = S"
      using sizes by (simp add: log)
    have c2: "segment a' \<noteq> 0 \<longrightarrow>
        (segment a', S) \<in> set (blocks (snd (base_allocator a'))) \<and> allocated a' \<le> arena_size S"
      using hd head rA by (auto simp: log word_le_nat_alt A)
    have c3: "\<forall>(b, p', k)\<in>set (ts @ [((q, S), p, ?r)]).
        b \<in> set (blocks (snd (base_allocator a'))) \<and> in_data b p' k \<and>
        (fst b = segment a' \<longrightarrow> unat p' + unat k \<le> unat (segment a') + 16 + unat (allocated a'))"
    proof (intro ballI)
      fix t assume t: "t \<in> set (ts @ [((q, S), p, ?r)])"
      obtain b p' k where tt: "t = (b, p', k)" by (cases t)
      show "case t of (b, p', k) \<Rightarrow>
        b \<in> set (blocks (snd (base_allocator a'))) \<and> in_data b p' k \<and>
        (fst b = segment a' \<longrightarrow> unat p' + unat k \<le> unat (segment a') + 16 + unat (allocated a'))"
      proof (cases "t \<in> set ts")
        case True
        with regs tt have b: "b \<in> set ?bs" and i: "in_data b p' k"
          and c: "fst b = segment a \<longrightarrow> unat p' + unat k \<le> unat (segment a) + 16 + unat (allocated a)"
          by auto
        from old [OF b] hd c have "fst b = segment a' \<longrightarrow>
            unat p' + unat k \<le> unat (segment a') + 16 + unat (allocated a')"
          by auto
        with b i show ?thesis by (simp add: tt log)
      next
        case False
        with t have "t = ((q, S), p, ?r)" by simp
        moreover have "q = segment a' \<longrightarrow> unat p + unat ?r \<le> unat (segment a') + 16 + unat (allocated a')"
        proof (cases "segment a' = q \<and> allocated a' = ?r")
          case True
          then show ?thesis by (simp add: up)
        next
          case False
          with hd have h: "segment a' = segment a" "segment a \<noteq> 0" by auto
          from head [OF h(2)] have "(segment a, S) \<in> set ?bs" ..
          from old [OF this] h show ?thesis by simp
        qed
        ultimately show ?thesis using ind by (simp add: log)
      qed
    qed
    have c4: "sorted_wrt ?P (ts @ [((q, S), p, ?r)])"
      using ord regs oldq by (fastforce simp: sorted_wrt_append)
    from c1 c2 c3 c4 show ?thesis unfolding arena_inv_def by blast
  qed
  from al show ?thesis
  proof (cases rule: allocate_Inr_cases)
    case (large q b)
    from large(2) rA have "unat ?r = unat (arena_size S)" by (simp add: word_le_nat_alt A)
    then have "?r = arena_size S" by (simp add: word_unat_eq_iff)
    then have k: "sizeof_Segment + ?r = S" by (simp add: arena_size_def)
    from large(3) have "snd (base_allocator a') = snd (base_allocator a) @ [Alloc S q]"
      by (simp add: traced_allocate_log large(6) k)
    from new_block [OF this large(5)] large(1) show ?thesis by (auto simp: large(6))
  next
    case (fresh q b)
    from fresh(3) have "snd (base_allocator a') = snd (base_allocator a) @ [Alloc S q]"
      by (simp add: traced_allocate_log fresh(6))
    from new_block [OF this fresh(5)] show ?thesis by (auto simp: fresh(6))
  next
    case bump
    let ?s = "segment a"
    from head [OF bump(1)] have hb: "(?s, S) \<in> set ?bs" and cur: "allocated a \<le> arena_size S"
      by simp_all
    from ok have ok': "blocks_ok ?bs" by (simp add: bump(5))
    from blocks_ok_bound [OF ok' hb] have sS: "unat ?s + unat S < 2 ^ 64" by simp
    from cur have cA: "unat (allocated a) \<le> unat S - 16" by (simp add: word_le_nat_alt A)
    have "unat (allocated a) + unat ?r < 2 ^ 64" using cA rA half S16 by simp
    then have sum: "unat (allocated a + ?r) = unat (allocated a) + unat ?r"
      by (simp add: unat_word_ariths)
    with bump(3) have fit: "unat (allocated a) + unat ?r \<le> unat S - 16"
      by (simp add: word_le_nat_alt A)
    have u1: "unat (?s + sizeof_Segment) = unat ?s + 16" by (rule unat_plus_header [OF sS S])
    have "unat (?s + sizeof_Segment) + unat (allocated a) < 2 ^ 64"
      unfolding u1 using sS cA S16 by simp
    from unat_add_nowrap [OF this] have up: "unat p = unat ?s + 16 + unat (allocated a)"
      unfolding bump(4) u1 .
    have ind: "in_data (?s, S) p ?r" using fit S16 by (simp add: in_data_def up)
    have same: "snd (base_allocator a') = snd (base_allocator a)" "segment a' = ?s"
      "allocated a' = allocated a + ?r" by (simp_all add: bump(5))
    have c2: "segment a' \<noteq> 0 \<longrightarrow>
        (segment a', S) \<in> set (blocks (snd (base_allocator a'))) \<and> allocated a' \<le> arena_size S"
      using hb fit by (simp add: same word_le_nat_alt A sum)
    have c3: "\<forall>(b, p', k)\<in>set (ts @ [((?s, S), p, ?r)]).
        b \<in> set (blocks (snd (base_allocator a'))) \<and> in_data b p' k \<and>
        (fst b = segment a' \<longrightarrow> unat p' + unat k \<le> unat (segment a') + 16 + unat (allocated a'))"
      using regs hb ind by (fastforce simp: same sum up)
    have c4: "sorted_wrt ?P (ts @ [((?s, S), p, ?r)])"
      using ord regs by (fastforce simp: sorted_wrt_append up)
    from sizes c2 c3 c4 have "arena_inv S a' (ts @ [((?s, S), p, ?r)])"
      unfolding arena_inv_def same by blast
    then show ?thesis ..
  qed
qed


lemma run_append:
  "run B S (cs @ ds) a m =
     (case run B S cs a m of
        Inl e \<Rightarrow> Inl e
      | Inr (rs, a1, m1) \<Rightarrow>
          (case run B S ds a1 m1 of
             Inl e \<Rightarrow> Inl e
           | Inr (rs', a2, m2) \<Rightarrow> Inr (rs @ rs', a2, m2)))"
  by (induction cs arbitrary: a m) (auto split: sum.splits)

lemma run_allocate_snoc:
  assumes "run B S (map Allocate (ns @ [n])) a m = Inr (rs, a', m')"
  obtains rs1 a1 m1 p where "run B S (map Allocate ns) a m = Inr (rs1, a1, m1)"
    and "allocate B S n a1 m1 = Inr (p, a', m')" and "rs = rs1 @ [Some p]"
  using assms by (auto simp: run_append split: sum.splits)

lemma arena_inv_new: "arena_inv S (arena_allocator_new (b, [])) []"
  by (simp add: arena_inv_def arena_allocator_new_def)

lemma arena_inv_run:
  assumes S: "sizeof_Segment \<le> S" and al8: "unat S mod 8 = 0" and half: "unat S \<le> 2 ^ 63"
  shows "\<forall>n\<in>set ns. n \<le> arena_size S \<Longrightarrow>
    run (traced B) S (map Allocate ns) (arena_allocator_new (b0, [])) m0 = Inr (rs, a, m) \<Longrightarrow>
    blocks_ok (blocks (snd (base_allocator a))) \<Longrightarrow>
    \<exists>ts. rs = map (\<lambda>(b, p, k). Some p) ts \<and> map (\<lambda>(b, p, k). k) ts = map round_size ns \<and>
      arena_inv S a ts"
proof (induction ns arbitrary: rs a m rule: rev_induct)
  case Nil
  then show ?case by (auto simp: arena_inv_new)
next
  case (snoc n ns)
  from snoc.prems(2) obtain rs1 a1 m1 p where
    r1: "run (traced B) S (map Allocate ns) (arena_allocator_new (b0, [])) m0 = Inr (rs1, a1, m1)"
    and al: "allocate (traced B) S n a1 m1 = Inr (p, a, m)" and rs: "rs = rs1 @ [Some p]"
    by (rule run_allocate_snoc)
  from allocate_log [OF al] snoc.prems(3) have ok1: "blocks_ok (blocks (snd (base_allocator a1)))"
    by (auto dest: blocks_ok_prefix)
  from snoc.prems(1) have "\<forall>n\<in>set ns. n \<le> arena_size S" and n: "n \<le> arena_size S" by simp_all
  from snoc.IH [OF this(1) r1 ok1] obtain ts where
    ts: "rs1 = map (\<lambda>(b, p, k). Some p) ts" "map (\<lambda>(b, p, k). k) ts = map round_size ns"
    and inv: "arena_inv S a1 ts"
    by blast
  from arena_inv_allocate [OF S al8 half n inv al snoc.prems(3)]
  obtain b where "arena_inv S a (ts @ [(b, p, round_size n)])" ..
  with ts rs show ?case
    by (intro exI [of _ "ts @ [(b, p, round_size n)]"]) simp
qed

lemma in_data_unique:
  assumes ok: "blocks_ok bs" and b: "b \<in> set bs" and c: "c \<in> set bs"
    and ib: "in_data b p k" and ic: "in_data c p' k'" and bc: "b \<noteq> c"
  shows "unat p + unat k < unat p' \<or> unat p' + unat k' < unat p"
proof -
  let ?D = "\<lambda>b c. \<not> overlap (fst b) (snd b) (fst c) (snd c)"
  from ok have sw: "sorted_wrt ?D bs" by (simp add: blocks_ok_def)
  from b c obtain i j where ij: "i < length bs" "j < length bs" "bs ! i = b" "bs ! j = c"
    by (auto simp: in_set_conv_nth)
  with bc have "i < j \<or> j < i" by (cases i j rule: linorder_cases) auto
  with sw ij have "?D b c \<or> ?D c b" by (auto simp: sorted_wrt_iff_nth_less)
  then have d: "\<not> overlap (fst b) (snd b) (fst c) (snd c)" by (auto simp: overlap_def)
  from ib have "0 < unat (snd b)" by (simp add: in_data_def)
  moreover from ic have "0 < unat (snd c)" by (simp add: in_data_def)
  ultimately have "snd b \<noteq> 0" "snd c \<noteq> 0" by (simp_all add: unat_gt_0)
  with d ib ic show ?thesis by (auto simp: overlap_def in_data_def)
qed


text \<open>
  C5, with strict increase kept for requests of non-zero size. On a fresh arena whose segment size is a multiple of \<open>sizeof(size_t)\<close>,
  at least \<open>sizeof(Segment)\<close> and at most \<open>2^63\<close>, over a base allocator whose blocks are
  pairwise disjoint and below the top of the address space, for requests of at most
  \<open>arena_size()\<close> bytes each: the region of the rounded size at each returned address
  lies in the data area of a block obtained from the base allocator, the rounded size
  being the least multiple of \<open>sizeof(size_t)\<close> that is at least the request;
  regions of different calls do not overlap; and of two regions in the same segment, the
  later call's begins at or after the end of the earlier call's, so that its address is
  strictly greater whenever the earlier request was not of size zero.
\<close>

theorem allocated_regions_disjoint_and_ordered:
  assumes S: "sizeof_Segment \<le> S" and al8: "aligned S" and half: "unat S \<le> 2 ^ 63"
    and ns: "\<forall>n\<in>set ns. n \<le> arena_size S"
    and rn: "run (traced B) S (map Allocate ns) (arena_allocator_new (b0, [])) m0 = Inr (rs, a, m)"
    and ok: "blocks_ok (blocks (snd (base_allocator a)))"
  shows "\<exists>ps. rs = map Some ps \<and> length ps = length ns \<and>
    (\<forall>i<length ns.
       ns ! i \<le> round_size (ns ! i) \<and> aligned (round_size (ns ! i)) \<and>
       unat (round_size (ns ! i)) < unat (ns ! i) + 8 \<and>
       (\<exists>blk\<in>set (blocks (snd (base_allocator a))). in_data blk (ps ! i) (round_size (ns ! i)))) \<and>
    (\<forall>j<length ns. \<forall>i<j.
       \<not> overlap (ps ! i) (round_size (ns ! i)) (ps ! j) (round_size (ns ! j)) \<and>
       (\<forall>blk\<in>set (blocks (snd (base_allocator a))).
          in_data blk (ps ! i) (round_size (ns ! i)) \<and> in_data blk (ps ! j) (round_size (ns ! j)) \<longrightarrow>
          unat (ps ! i) + unat (round_size (ns ! i)) \<le> unat (ps ! j) \<and>
          (ns ! i \<noteq> 0 \<longrightarrow> ps ! i < ps ! j)))"
proof -
  let ?bs = "blocks (snd (base_allocator a))"
  let ?P = "\<lambda>(b, p, n) (b', p', n'). b = b' \<longrightarrow> unat p + unat n \<le> unat (p'::addr)"
  from al8 have al8': "unat S mod 8 = 0" by (simp add: aligned_unat)
  from arena_inv_run [OF S al8' half ns rn ok] obtain ts where
    rs: "rs = map (\<lambda>(b, p, k). Some p) ts" and ks: "map (\<lambda>(b, p, k). k) ts = map round_size ns"
    and inv: "arena_inv S a ts"
    by blast
  define ps where "ps = map (\<lambda>(b, p, k). p) ts"
  define bl where "bl = map (\<lambda>(b, p, k). b) ts"
  from ks have len: "length ts = length ns" by (metis length_map)
  have nth: "ts ! i = (bl ! i, ps ! i, round_size (ns ! i))" if "i < length ns" for i
  proof -
    from that len have i: "i < length ts" by simp
    obtain b p k where t: "ts ! i = (b, p, k)" by (cases "ts ! i")
    from i have "map (\<lambda>(b, p, k). k) ts ! i = k" by (simp add: t)
    with that have "k = round_size (ns ! i)" by (simp add: ks)
    with i t show ?thesis by (simp add: ps_def bl_def)
  qed
  from inv have regs: "\<forall>(b, p, n)\<in>set ts. b \<in> set ?bs \<and> in_data b p n"
    and ord: "sorted_wrt ?P ts"
    by (auto simp: arena_inv_def)
  have reg: "bl ! i \<in> set ?bs \<and> in_data (bl ! i) (ps ! i) (round_size (ns ! i))"
    if "i < length ns" for i
  proof -
    from that len have "ts ! i \<in> set ts" by simp
    with regs nth [OF that] show ?thesis by auto
  qed
  have before: "bl ! i = bl ! j \<longrightarrow> unat (ps ! i) + unat (round_size (ns ! i)) \<le> unat (ps ! j)"
    if "i < j" "j < length ns" for i j
  proof -
    from that len ord have "?P (ts ! i) (ts ! j)" by (simp add: sorted_wrt_iff_nth_less)
    with that nth [of i] nth [of j] show ?thesis by simp
  qed
  have grow: "unat (ns ! i) \<le> unat (round_size (ns ! i))" if "i < length ns" for i
  proof -
    from that ns have "ns ! i \<le> arena_size S" by simp
    from round_size_bounds(1) [OF S al8' this] show ?thesis .
  qed
  have near: "unat (round_size (ns ! i)) < unat (ns ! i) + 8" if "i < length ns" for i
  proof -
    from that ns have "ns ! i \<le> arena_size S" by simp
    from round_size_bounds(3) [OF S al8' this] show ?thesis .
  qed
  have A: "ns ! i \<le> round_size (ns ! i) \<and> aligned (round_size (ns ! i)) \<and>
       unat (round_size (ns ! i)) < unat (ns ! i) + 8 \<and>
       (\<exists>blk\<in>set ?bs. in_data blk (ps ! i) (round_size (ns ! i)))"
    if "i < length ns" for i
    using reg [OF that] grow [OF that] near [OF that] aligned_round_size [of "ns ! i"]
    by (auto simp: word_le_nat_alt)
  have B: "\<not> overlap (ps ! i) (round_size (ns ! i)) (ps ! j) (round_size (ns ! j)) \<and>
       (\<forall>blk\<in>set ?bs.
          in_data blk (ps ! i) (round_size (ns ! i)) \<and> in_data blk (ps ! j) (round_size (ns ! j)) \<longrightarrow>
          unat (ps ! i) + unat (round_size (ns ! i)) \<le> unat (ps ! j) \<and>
          (ns ! i \<noteq> 0 \<longrightarrow> ps ! i < ps ! j))"
    if j: "j < length ns" and ij: "i < j" for i j
  proof -
    from j ij have i: "i < length ns" by simp
    note ri = reg [OF i] and rj = reg [OF j] and bf = before [OF ij j]
    have no: "\<not> overlap (ps ! i) (round_size (ns ! i)) (ps ! j) (round_size (ns ! j))"
    proof (cases "bl ! i = bl ! j")
      case True
      with bf show ?thesis by (simp add: overlap_def)
    next
      case False
      from in_data_unique [OF ok _ _ _ _ False] ri rj show ?thesis
        by (fastforce simp: overlap_def)
    qed
    have same: "unat (ps ! i) + unat (round_size (ns ! i)) \<le> unat (ps ! j) \<and>
          (ns ! i \<noteq> 0 \<longrightarrow> ps ! i < ps ! j)"
      if blk: "blk \<in> set ?bs" and di: "in_data blk (ps ! i) (round_size (ns ! i))"
        and dj: "in_data blk (ps ! j) (round_size (ns ! j))" for blk
    proof -
      have "bl ! i = blk"
      proof (rule ccontr)
        assume "bl ! i \<noteq> blk"
        from in_data_unique [OF ok _ blk _ di this] ri show False by fastforce
      qed
      moreover have "bl ! j = blk"
      proof (rule ccontr)
        assume "bl ! j \<noteq> blk"
        from in_data_unique [OF ok _ blk _ dj this] rj show False by fastforce
      qed
      ultimately have le: "unat (ps ! i) + unat (round_size (ns ! i)) \<le> unat (ps ! j)"
        using bf by simp
      have "ps ! i < ps ! j" if "ns ! i \<noteq> 0"
      proof -
        from that have "0 < unat (ns ! i)" by (simp add: unat_gt_0)
        with grow [OF i] le show ?thesis by (simp add: word_less_nat_alt)
      qed
      with le show ?thesis by simp
    qed
    from no same show ?thesis by blast
  qed
  have "rs = map Some ps" by (simp add: rs ps_def case_prod_unfold comp_def)
  moreover have "length ps = length ns" by (simp add: ps_def len)
  ultimately show ?thesis using A B by blast
qed

theorem allocated_regions_disjoint_and_ordered_witness:
  "(case run (traced bump) 64 (map Allocate [16, 16, 16, 16])
          (arena_allocator_new (4096, [])) mem0 of
      Inl e \<Rightarrow> False
    | Inr (rs, a, m) \<Rightarrow>
        rs = [Some 4112, Some 4128, Some 4144, Some 4176] \<and>
        blocks (snd (base_allocator a)) = [(4096, 64), (4160, 64)] \<and>
        (\<exists>ps. rs = map Some ps \<and>
           \<not> overlap (ps ! 0) (round_size 16) (ps ! 1) (round_size 16) \<and>
           \<not> overlap (ps ! 2) (round_size 16) (ps ! 3) (round_size 16) \<and>
           ps ! 0 < ps ! 1))"
proof -
  let ?ns = "[16, 16, 16, 16] :: size_t list"
  obtain rs a m where
    r: "run (traced bump) 64 (map Allocate ?ns) (arena_allocator_new (4096, [])) mem0 =
          Inr (rs, a, m)"
    and rs: "rs = [Some 4112, Some 4128, Some 4144, Some 4176]"
    and l: "snd (base_allocator a) = [Alloc 64 4096, Alloc 64 4160]"
    by (simp add: eval_defs)
  have h1: "sizeof_Segment \<le> 64" by (simp add: sizeof_Segment_def)
  have h2: "aligned 64" by (simp add: aligned_def sizeof_size_t_def)
  have h3: "unat (64 :: size_t) \<le> 2 ^ 63" by simp
  have h4: "\<forall>n\<in>set ?ns. n \<le> arena_size 64" by (simp add: eval_defs)
  have h5: "blocks_ok (blocks (snd (base_allocator a)))"
    by (simp add: l blocks_ok_def overlap_def)
  from allocated_regions_disjoint_and_ordered [OF h1 h2 h3 h4 r h5] obtain ps where
    ps: "rs = map Some ps"
    and pair: "\<forall>j<length ?ns. \<forall>i<j.
       \<not> overlap (ps ! i) (round_size (?ns ! i)) (ps ! j) (round_size (?ns ! j)) \<and>
       (\<forall>blk\<in>set (blocks (snd (base_allocator a))).
          in_data blk (ps ! i) (round_size (?ns ! i)) \<and> in_data blk (ps ! j) (round_size (?ns ! j)) \<longrightarrow>
          unat (ps ! i) + unat (round_size (?ns ! i)) \<le> unat (ps ! j) \<and>
          (?ns ! i \<noteq> 0 \<longrightarrow> ps ! i < ps ! j))"
    by blast
  from ps rs have pv: "ps = [4112, 4128, 4144, 4176]" by (auto simp: map_eq_Cons_conv)
  have p01: "\<not> overlap (ps ! 0) (round_size 16) (ps ! 1) (round_size 16) \<and>
       (\<forall>blk\<in>set (blocks (snd (base_allocator a))).
          in_data blk (ps ! 0) (round_size 16) \<and> in_data blk (ps ! 1) (round_size 16) \<longrightarrow>
          unat (ps ! 0) + unat (round_size 16) \<le> unat (ps ! 1) \<and>
          ((16 :: size_t) \<noteq> 0 \<longrightarrow> ps ! 0 < ps ! 1))"
    using pair [rule_format, of 1 0] by simp
  have p23: "\<not> overlap (ps ! 2) (round_size 16) (ps ! 3) (round_size 16)"
    using pair [rule_format, of 3 2] by simp
  have "in_data (4096, 64) (ps ! 0) (round_size 16) \<and> in_data (4096, 64) (ps ! 1) (round_size 16)"
    by (simp add: pv in_data_def round_size_def sizeof_size_t_def)
  with p01 have "ps ! 0 < ps ! 1" by (simp add: l)
  with p01 p23 ps show ?thesis unfolding r by (auto simp: rs l)
qed

text \<open>
  C5 with strict increase for every request fails at size zero: \<open>allocate(0)\<close> twice on a fresh arena
  returns the same address twice, in the same segment, so addresses within a segment are
  not strictly increasing in call order.
\<close>

theorem zero_size_requests_share_an_address:
  "\<exists>a m. run (traced bump) 64 (map Allocate [0, 0]) (arena_allocator_new (4096, [])) mem0 =
            Inr ([Some 4112, Some 4112], a, m) \<and>
          blocks (snd (base_allocator a)) = [(4096, 64)] \<and>
          (0 :: size_t) \<le> arena_size 64 \<and>
          blocks_ok [(4096, 64)] \<and>
          in_data (4096, 64) 4112 (round_size 0) \<and>
          \<not> (4112 :: addr) < 4112"
  by (simp add: eval_defs blocks_ok_def in_data_def)

section \<open>The segment chain and teardown\<close>

lemma chain_cong:
  "\<forall>x\<in>set xs. load_next m' x = load_next m x \<Longrightarrow> chain m' p xs = chain m p xs"
  by (induction xs arbitrary: p) auto

lemma destroy_loop_chain:
  "chain m p xs \<Longrightarrow>
   destroy_loop (traced B) m p (b, log) =
     Some (fold (\<lambda>x. base_deallocate B x (load_size m x)) xs b,
           log @ map (\<lambda>x. Free x (load_size m x)) xs)"
proof (induction xs arbitrary: p b log)
  case Nil
  then show ?case by (simp add: destroy_loop.simps)
next
  case (Cons x xs)
  then have "chain m (load_next m x) xs" and "p = x" and "p \<noteq> 0" by auto
  with Cons.IH [of "load_next m x"] show ?case
    by (subst destroy_loop.simps) (simp add: traced_deallocate)
qed

lemma round_size_grows:
  assumes "unat n + 24 \<le> 2 ^ 64"
  shows "unat n \<le> unat (round_size n)" and "unat (round_size n) + 16 < 2 ^ 64"
proof -
  from assms have "unat n + 8 < 2 ^ 64" by simp
  note r = round_size_unat [OF this]
  show "unat n \<le> unat (round_size n)" unfolding r by presburger
  have "unat (round_size n) \<le> unat n + 7" unfolding r by presburger
  with assms show "unat (round_size n) + 16 < 2 ^ 64" by simp
qed

lemma blocks_ok_disjoint:
  assumes ok: "blocks_ok bs" and b: "b \<in> set bs" and c: "c \<in> set bs" and bc: "b \<noteq> c"
    and nb: "0 < unat (snd b)" and nc: "0 < unat (snd c)"
  shows "unat (fst b) + unat (snd b) \<le> unat (fst c) \<or> unat (fst c) + unat (snd c) \<le> unat (fst b)"
proof -
  let ?D = "\<lambda>b c. \<not> overlap (fst b) (snd b) (fst c) (snd c)"
  from ok have sw: "sorted_wrt ?D bs" by (simp add: blocks_ok_def)
  from b c obtain i j where ij: "i < length bs" "j < length bs" "bs ! i = b" "bs ! j = c"
    by (auto simp: in_set_conv_nth)
  with bc have "i < j \<or> j < i" by (cases i j rule: linorder_cases) auto
  with sw ij have "?D b c \<or> ?D c b" by (auto simp: sorted_wrt_iff_nth_less)
  then have d: "\<not> overlap (fst b) (snd b) (fst c) (snd c)" by (auto simp: overlap_def)
  from nb nc have "snd b \<noteq> 0" "snd c \<noteq> 0" by auto
  with d show ?thesis by (auto simp: overlap_def)
qed

text \<open>facts read off the invariant\<close>

lemma tidy_block:
  assumes "tidy S a m xs" and "x \<in> set xs"
  shows "(x, load_size m x) \<in> set (blocks (snd (base_allocator a)))"
    and "16 \<le> unat (load_size m x)"
proof -
  from assms(1) have "mset (map (\<lambda>x. (x, load_size m x)) xs) = mset (blocks (snd (base_allocator a)))"
    by (simp add: tidy_def)
  then have "set (map (\<lambda>x. (x, load_size m x)) xs) = set (blocks (snd (base_allocator a)))"
    by (rule mset_eq_setD)
  with assms(2) show b: "(x, load_size m x) \<in> set (blocks (snd (base_allocator a)))" by auto
  from assms(1) b show "16 \<le> unat (load_size m x)" by (force simp: tidy_def)
qed

lemma tidy_addresses:
  assumes "tidy S a m xs"
  shows "set xs = fst ` set (blocks (snd (base_allocator a)))"
proof -
  from assms have "mset (map (\<lambda>x. (x, load_size m x)) xs) = mset (blocks (snd (base_allocator a)))"
    by (simp add: tidy_def)
  then have "set (map (\<lambda>x. (x, load_size m x)) xs) = set (blocks (snd (base_allocator a)))"
    by (rule mset_eq_setD)
  then have "fst ` set (map (\<lambda>x. (x, load_size m x)) xs) = fst ` set (blocks (snd (base_allocator a)))"
    by simp
  then show ?thesis by (simp add: image_image)
qed

text \<open>a header is kept by a write that stays off its sixteen bytes\<close>

lemma header_kept:
  assumes same: "\<And>y. \<not> (lo \<le> unat y \<and> unat y < hi) \<Longrightarrow> m' y = m y"
    and x: "unat x + 16 \<le> 2 ^ 64" and off: "unat x + 16 \<le> lo \<or> hi \<le> unat x"
  shows "load_next m' x = load_next m x" and "load_size m' x = load_size m x"
proof -
  show "load_next m' x = load_next m x"
    unfolding load_next_def using x off by (intro load64_cong same) auto
  from x have "unat x + unat (8 :: addr) < 2 ^ 64" by simp
  from unat_add_nowrap [OF this] have u: "unat (x + 8) = unat x + 8" by simp
  show "load_size m' x = load_size m x"
    unfolding load_size_def sizeof_size_t_def using x off u by (intro load64_cong same) auto
qed

lemma tidy_memory:
  assumes "tidy S a m xs"
    and "\<forall>x\<in>set xs. load_next m' x = load_next m x \<and> load_size m' x = load_size m x"
  shows "tidy S a m' xs"
proof -
  from assms(2) have c: "chain m' (segment a) xs = chain m (segment a) xs"
    by (intro chain_cong) simp
  from assms(2) have "image_mset (\<lambda>x. (x, load_size m' x)) (mset xs) =
      image_mset (\<lambda>x. (x, load_size m x)) (mset xs)"
    by (intro image_mset_cong) simp
  with assms(1) c show ?thesis by (simp add: tidy_def)
qed


lemma tidy_apart:
  assumes inv: "tidy S a m xs" and ok: "blocks_ok (blocks (snd (base_allocator a)))"
    and x: "x \<in> set xs" and y: "y \<in> set xs" and xy: "x \<noteq> y"
  shows "header_apart x y"
proof -
  let ?bs = "blocks (snd (base_allocator a))"
  note bx = tidy_block [OF inv x] and by' = tidy_block [OF inv y]
  from xy have ne: "(x, load_size m x) \<noteq> (y, load_size m y)" by simp
  from blocks_ok_bound [OF ok bx(1)] bx(2) have x16: "unat x + 16 \<le> 2 ^ 64" by simp
  from blocks_ok_bound [OF ok by'(1)] by'(2) have y16: "unat y + 16 \<le> 2 ^ 64" by simp
  from blocks_ok_disjoint [OF ok bx(1) by'(1) ne] bx(2) by'(2)
  have "unat x + 16 \<le> unat y \<or> unat y + 16 \<le> unat x" by auto
  then show ?thesis
  proof
    assume "unat x + 16 \<le> unat y"
    then show ?thesis using y16 by (rule header_apartI)
  next
    assume "unat y + 16 \<le> unat x"
    then have "header_apart y x" using x16 by (rule header_apartI)
    then show ?thesis by (rule header_apart_sym)
  qed
qed

lemma new_block_apart:
  assumes inv: "tidy S a m xs" and ok: "blocks_ok (blocks (snd (base_allocator a)) @ [(q, k)])"
    and k: "16 \<le> unat k" and x: "x \<in> set xs"
  shows "header_apart q x" and "header_apart x q" and "x \<noteq> q"
proof -
  let ?bs = "blocks (snd (base_allocator a))"
  note bx = tidy_block [OF inv x]
  from ok bx(1) have no: "\<not> overlap x (load_size m x) q k"
    by (auto simp: blocks_ok_def sorted_wrt_append)
  from bx(2) k have "load_size m x \<noteq> 0" "k \<noteq> 0" by auto
  with no bx(2) k have d: "unat x + 16 \<le> unat q \<or> unat q + 16 \<le> unat x"
    by (auto simp: overlap_def)
  from blocks_ok_bound [OF ok, of "(x, load_size m x)"] bx have x16: "unat x + 16 \<le> 2 ^ 64"
    by simp
  from blocks_ok_bound [OF ok, of "(q, k)"] k have q16: "unat q + 16 \<le> 2 ^ 64" by simp
  from d show xq: "header_apart x q"
  proof
    assume "unat x + 16 \<le> unat q"
    then show ?thesis using q16 by (rule header_apartI)
  next
    assume "unat q + 16 \<le> unat x"
    then have "header_apart q x" using x16 by (rule header_apartI)
    then show ?thesis by (rule header_apart_sym)
  qed
  then show "header_apart q x" by (rule header_apart_sym)
  from d show "x \<noteq> q" by auto
qed


lemma tidy_allocate:
  assumes S: "sizeof_Segment \<le> S" and half: "unat S \<le> 2 ^ 63"
    and big: "unat n + 24 \<le> 2 ^ 64"
    and fit: "segment a = 0 \<longrightarrow> round_size n \<le> arena_size S"
    and inv: "tidy S a m xs"
    and al: "allocate (traced B) S n a m = Inr (p, a', m')"
    and ok: "blocks_ok (blocks (snd (base_allocator a')))"
  shows "(\<exists>ys. tidy S a' m' ys) \<and>
    (\<exists>blk\<in>set (blocks (snd (base_allocator a'))). in_data blk p (round_size n)) \<and>
    segment a' \<noteq> 0"
proof -
  let ?bs = "blocks (snd (base_allocator a))"
  let ?r = "round_size n"
  from S have S16: "16 \<le> unat S" by (simp add: word_le_nat_alt)
  note A = arena_size_unat [OF S]
  note rg = round_size_grows [OF big]
  from inv have ch: "chain m (segment a) xs" and dx: "distinct xs"
    and ms: "mset (map (\<lambda>x. (x, load_size m x)) xs) = mset ?bs"
    and rl: "released (snd (base_allocator a)) = []"
    and sizes: "\<forall>b\<in>set ?bs. 16 \<le> unat (snd b)"
    and head: "segment a \<noteq> 0 \<Longrightarrow> (segment a, S) \<in> set ?bs \<and> allocated a \<le> arena_size S"
    by (simp_all add: tidy_def)
  from al show ?thesis
  proof (cases rule: allocate_Inr_cases)
    case (large q b)
    let ?s = "segment a" and ?k = "sizeof_Segment + ?r"
    let ?v = "load_next m ?s"
    from large(3) have logb: "snd b = snd (base_allocator a) @ [Alloc ?k q]"
      by (rule traced_allocate_log)
    then have log: "snd (base_allocator a') = snd (base_allocator a) @ [Alloc ?k q]"
      by (simp add: large(6))
    from ok have ok': "blocks_ok (?bs @ [(q, ?k)])" by (simp add: log)
    from rg(2) have "unat sizeof_Segment + unat ?r < 2 ^ 64" by simp
    from unat_add_nowrap [OF this] have uk: "unat ?k = 16 + unat ?r" by simp
    then have k16: "16 \<le> unat ?k" by simp
    note nb = new_block_apart [OF inv ok' k16]
    from ch large(1) obtain rest where xs: "xs = ?s # rest" and chr: "chain m ?v rest"
      by (cases xs) auto
    from dx xs have sr: "?s \<notin> set rest" and dr: "distinct rest" by auto
    have sx: "?s \<in> set xs" by (simp add: xs)
    note qs = nb(1) [OF sx] and sq = nb(2) [OF sx]
    from nb(3) have qx: "q \<notin> set xs" by auto
    from ok' have okb: "blocks_ok ?bs" by (rule blocks_ok_prefix)
    have m': "m' = store_next (store_next (store_size m q ?k) q ?v) ?s q"
      by (simp add: large(7) load_store_apart(2) [OF qs])
    have at_s: "load_next m' ?s = q" "load_size m' ?s = load_size m ?s"
      by (simp_all add: m' load_store_apart [OF qs])
    have at_q: "load_next m' q = ?v" "load_size m' q = ?k"
      by (simp_all add: m' load_store_apart [OF sq])
    have at_x: "load_next m' x = load_next m x \<and> load_size m' x = load_size m x"
      if "x \<in> set rest" for x
    proof -
      from that have x: "x \<in> set xs" by (simp add: xs)
      from that sr have "?s \<noteq> x" by auto
      from tidy_apart [OF inv okb sx x this] have "header_apart ?s x" .
      then show ?thesis by (simp add: m' load_store_apart nb(1) [OF x])
    qed
    then have "chain m' ?v rest = chain m ?v rest" by (intro chain_cong) simp
    with chr large(1,4) at_s at_q have c: "chain m' ?s (?s # q # rest)" by simp
    have szm: "image_mset (\<lambda>x. (x, load_size m' x)) (mset rest) =
               image_mset (\<lambda>x. (x, load_size m x)) (mset rest)"
      using at_x by (intro image_mset_cong) simp
    from head [OF large(1)] have hd: "(?s, S) \<in> set ?bs" "allocated a \<le> arena_size S" by simp_all
    have "tidy S a' m' (?s # q # rest)"
      using c qx sr dr ms rl sizes hd k16 large(1)
      by (auto simp add: tidy_def logb large(6) xs at_s at_q szm)
    moreover have "in_data (q, ?k) p ?r"
    proof -
      from blocks_ok_bound [OF ok', of "(q, ?k)"] have qk: "unat q + unat ?k < 2 ^ 64" by simp
      from k16 have "sizeof_Segment \<le> ?k" by (simp add: word_le_nat_alt)
      from unat_plus_header [OF qk this] have "unat p = unat q + 16" by (simp add: large(5))
      then show ?thesis by (simp add: in_data_def uk)
    qed
    moreover have "(q, ?k) \<in> set (blocks (snd (base_allocator a')))" by (simp add: log)
    moreover have "segment a' \<noteq> 0" using large(1) by (simp add: large(6))
    ultimately show ?thesis by blast
  next
    case (fresh q b)
    let ?s = "segment a"
    from fresh(3) have logb: "snd b = snd (base_allocator a) @ [Alloc S q]"
      by (rule traced_allocate_log)
    then have log: "snd (base_allocator a') = snd (base_allocator a) @ [Alloc S q]"
      by (simp add: fresh(6))
    from ok have ok': "blocks_ok (?bs @ [(q, S)])" by (simp add: log)
    note nb = new_block_apart [OF inv ok' S16]
    from nb(3) have qx: "q \<notin> set xs" by auto
    have m': "m' = store_next (store_size m q S) q ?s" by (rule fresh(7))
    have at_q: "load_next m' q = ?s" "load_size m' q = S" by (simp_all add: m')
    have at_x: "load_next m' x = load_next m x \<and> load_size m' x = load_size m x"
      if "x \<in> set xs" for x
      by (simp add: m' load_store_apart nb(1) [OF that])
    then have "chain m' ?s xs = chain m ?s xs" by (intro chain_cong) simp
    with ch fresh(4) at_q have c: "chain m' q (q # xs)" by simp
    have szm: "image_mset (\<lambda>x. (x, load_size m' x)) (mset xs) =
               image_mset (\<lambda>x. (x, load_size m x)) (mset xs)"
      using at_x by (intro image_mset_cong) simp
    have rA: "unat ?r \<le> unat S - 16"
    proof (cases "?s = 0")
      case True
      with fit show ?thesis by (simp add: word_le_nat_alt A)
    next
      case False
      with fresh(1) show ?thesis by (simp add: word_less_nat_alt A)
    qed
    then have cur: "?r \<le> arena_size S" by (simp add: word_le_nat_alt A)
    have "tidy S a' m' (q # xs)"
      using c qx dx ms rl sizes S16 cur fresh(4)
      by (auto simp add: tidy_def logb fresh(6) at_q szm)
    moreover have "in_data (q, S) p ?r"
    proof -
      from blocks_ok_bound [OF ok', of "(q, S)"] have qS: "unat q + unat S < 2 ^ 64" by simp
      from unat_plus_header [OF qS S] have "unat p = unat q + 16" by (simp add: fresh(5))
      with rA S16 show ?thesis by (simp add: in_data_def)
    qed
    moreover have "(q, S) \<in> set (blocks (snd (base_allocator a')))" by (simp add: log)
    moreover have "segment a' \<noteq> 0" using fresh(4) by (simp add: fresh(6))
    ultimately show ?thesis by blast
  next
    case bump
    let ?s = "segment a"
    from head [OF bump(1)] have hb: "(?s, S) \<in> set ?bs" and cur: "allocated a \<le> arena_size S"
      by simp_all
    from ok have ok': "blocks_ok ?bs" by (simp add: bump(5))
    from blocks_ok_bound [OF ok' hb] have sS: "unat ?s + unat S < 2 ^ 64" by simp
    from cur have cA: "unat (allocated a) \<le> unat S - 16" by (simp add: word_le_nat_alt A)
    from bump(2) have rA: "unat ?r < unat S - 16" by (simp add: word_less_nat_alt A)
    have "unat (allocated a) + unat ?r < 2 ^ 64" using cA rA half S16 by simp
    from unat_add_nowrap [OF this]
    have sum: "unat (allocated a + ?r) = unat (allocated a) + unat ?r" .
    with bump(3) have fitb: "unat (allocated a) + unat ?r \<le> unat S - 16"
      by (simp add: word_le_nat_alt A)
    have u1: "unat (?s + sizeof_Segment) = unat ?s + 16" by (rule unat_plus_header [OF sS S])
    have "unat (?s + sizeof_Segment) + unat (allocated a) < 2 ^ 64"
      unfolding u1 using sS cA S16 by simp
    from unat_add_nowrap [OF this] have up: "unat p = unat ?s + 16 + unat (allocated a)"
      unfolding bump(4) u1 .
    have ind: "in_data (?s, S) p ?r" using fitb S16 by (simp add: in_data_def up)
    have "tidy S a' m' xs"
      using inv bump(1,3) by (simp add: tidy_def bump(5,6))
    moreover have "(?s, S) \<in> set (blocks (snd (base_allocator a')))"
      using hb by (simp add: bump(5))
    moreover have "segment a' \<noteq> 0" using bump(1) by (simp add: bump(5))
    ultimately show ?thesis using ind by blast
  qed
qed


lemma tidy_memcpy:
  assumes inv: "tidy S a m xs" and ok: "blocks_ok (blocks (snd (base_allocator a)))"
    and blk: "blk \<in> set (blocks (snd (base_allocator a)))"
    and ind: "in_data blk dst r" and le: "unat k \<le> unat r"
  shows "tidy S a (memcpy dst src k m) xs"
proof (rule tidy_memory [OF inv], rule ballI)
  fix x assume x: "x \<in> set xs"
  let ?m' = "memcpy dst src k m"
  note bx = tidy_block [OF inv x]
  from blocks_ok_bound [OF ok blk] have bb: "unat (fst blk) + unat (snd blk) < 2 ^ 64" .
  from ind have lo: "unat (fst blk) + 16 \<le> unat dst"
    and hi: "unat dst + unat r \<le> unat (fst blk) + unat (snd blk)"
    by (simp_all add: in_data_def)
  from lo hi have b16: "0 < unat (snd blk)" by simp
  from hi bb le have dk: "unat dst + unat k \<le> 2 ^ 64" by simp
  from blocks_ok_bound [OF ok bx(1)] bx(2) have x16: "unat x + 16 \<le> 2 ^ 64" by simp
  have off: "unat x + 16 \<le> unat dst \<or> unat dst + unat k \<le> unat x"
  proof (cases "(x, load_size m x) = blk")
    case True
    with lo show ?thesis by auto
  next
    case False
    from blocks_ok_disjoint [OF ok bx(1) blk False] bx(2) b16
    have "unat x + unat (load_size m x) \<le> unat (fst blk) \<or>
          unat (fst blk) + unat (snd blk) \<le> unat x" by simp
    with bx(2) lo hi le show ?thesis by auto
  qed
  have same: "?m' y = m y" if "\<not> (unat dst \<le> unat y \<and> unat y < unat dst + unat k)" for y
    using dk that by (rule memcpy_outside)
  from header_kept [of "unat dst" "unat dst + unat k" ?m' m x, OF same x16 off]
  show "load_next ?m' x = load_next m x \<and> load_size ?m' x = load_size m x" by simp
qed

lemma requests_Cons:
  "requests (c # cs) = (case request_size c of None \<Rightarrow> requests cs | Some n \<Rightarrow> n # requests cs)"
  by (simp add: requests_def map_filter_simps split: option.splits)

lemma requests_Nil [simp]: "requests [] = []"
  by (simp add: requests_def map_filter_simps)

lemma tidy_step:
  assumes S: "sizeof_Segment \<le> S" and half: "unat S \<le> 2 ^ 63"
    and big: "\<forall>n\<in>set (requests [c]). unat n + 24 \<le> 2 ^ 64"
    and fit: "segment a = 0 \<longrightarrow> first_fits S [c]"
    and inv: "tidy S a m xs"
    and st: "step (traced B) S c a m = Inr (r, a', m')"
    and ok: "blocks_ok (blocks (snd (base_allocator a')))"
  shows "(\<exists>ys. tidy S a' m' ys) \<and> (segment a' = 0 \<longrightarrow> requests [c] = [] \<and> segment a = 0)"
proof (cases c)
  case (Allocate n)
  with st have al: "allocate (traced B) S n a m = Inr (the r, a', m')"
    by (auto split: sum.splits)
  from big fit Allocate have b: "unat n + 24 \<le> 2 ^ 64"
    and f: "segment a = 0 \<longrightarrow> round_size n \<le> arena_size S"
    by (simp_all add: requests_Cons first_fits_def requests_def map_filter_simps)
  from tidy_allocate [OF S half b f inv al ok] show ?thesis by blast
next
  case (Deallocate q k)
  with st inv show ?thesis
    by (auto simp: deallocate_def requests_def map_filter_simps)
next
  case (Reallocate k q n)
  show ?thesis
  proof (cases "k \<le> n")
    case True
    with st inv Reallocate show ?thesis
      by (auto simp: reallocate_def requests_def map_filter_simps)
  next
    case False
    with st Reallocate obtain ret m1 where
      al: "allocate (traced B) S k a m = Inr (ret, a', m1)" and m': "m' = memcpy ret q n m1"
      by (auto simp: reallocate_def split: sum.splits)
    from big fit Reallocate False have b: "unat k + 24 \<le> 2 ^ 64"
      and f: "segment a = 0 \<longrightarrow> round_size k \<le> arena_size S"
      by (simp_all add: requests_Cons first_fits_def requests_def map_filter_simps)
    from tidy_allocate [OF S half b f inv al ok] obtain ys blk where
      t: "tidy S a' m1 ys" and blk: "blk \<in> set (blocks (snd (base_allocator a')))"
      and ind: "in_data blk ret (round_size k)" and nz: "segment a' \<noteq> 0"
      by blast
    from False round_size_grows(1) [OF b] have "unat n \<le> unat (round_size k)"
      by (simp add: word_le_nat_alt)
    from tidy_memcpy [OF t ok blk ind this] have "tidy S a' m' ys" by (simp add: m')
    with nz show ?thesis by blast
  qed
qed

lemma tidy_run:
  assumes S: "sizeof_Segment \<le> S" and half: "unat S \<le> 2 ^ 63"
  shows "tidy S a m xs \<Longrightarrow> \<forall>n\<in>set (requests cs). unat n + 24 \<le> 2 ^ 64 \<Longrightarrow>
    segment a = 0 \<longrightarrow> first_fits S cs \<Longrightarrow>
    run (traced B) S cs a m = Inr (rs, a', m') \<Longrightarrow>
    blocks_ok (blocks (snd (base_allocator a'))) \<Longrightarrow> \<exists>ys. tidy S a' m' ys"
proof (induction cs arbitrary: a m xs rs)
  case Nil
  then show ?case by auto
next
  case (Cons c cs)
  from Cons.prems(4) obtain r a1 m1 rs1 where
    st: "step (traced B) S c a m = Inr (r, a1, m1)" and
    rn: "run (traced B) S cs a1 m1 = Inr (rs1, a', m')"
    by (auto split: sum.splits)
  from run_log [OF rn] Cons.prems(5) have ok1: "blocks_ok (blocks (snd (base_allocator a1)))"
    by (auto dest: blocks_ok_prefix)
  from Cons.prems(2) have big1: "\<forall>n\<in>set (requests [c]). unat n + 24 \<le> 2 ^ 64"
    and bigs: "\<forall>n\<in>set (requests cs). unat n + 24 \<le> 2 ^ 64"
    by (auto simp: requests_Cons split: option.splits)
  from Cons.prems(3) have fit1: "segment a = 0 \<longrightarrow> first_fits S [c]"
    by (auto simp: first_fits_def requests_Cons split: option.splits)
  from tidy_step [OF S half big1 fit1 Cons.prems(1) st ok1] obtain ys where
    t: "tidy S a1 m1 ys" and z: "segment a1 = 0 \<longrightarrow> requests [c] = [] \<and> segment a = 0"
    by blast
  from z Cons.prems(3) have "segment a1 = 0 \<longrightarrow> first_fits S cs"
    by (auto simp: first_fits_def requests_Cons split: option.splits)
  from Cons.IH [OF t bigs this rn Cons.prems(5)] show ?case .
qed

lemma tidy_new: "tidy S (arena_allocator_new (b, [])) m []"
  by (simp add: tidy_def arena_allocator_new_def)

text \<open>
  C3. After any sequence of calls on a fresh arena, the destructor returns, and the
  calls it makes on the base allocator are one \<open>deallocate\<close> for each block obtained
  before: as many as were obtained, each with the block's own address and the size that
  was requested for it (the two lists of (address, size) pairs are equal as multisets).
  Nothing was released before. The headers are read back from the same bytes that
  \<open>reallocate\<close> copies into, so the statement asks that no copy reaches a header: the
  blocks of the base allocator are disjoint and below the top of the address space, the
  segment size is between \<open>sizeof(Segment)\<close> and \<open>2^63\<close>, every size passed to
  \<open>allocate\<close> can be rounded and given a header without wrapping, and the first of them
  fits a segment.
\<close>

theorem teardown_releases_every_segment:
  assumes "sizeof_Segment \<le> S" and "unat S \<le> 2 ^ 63"
    and "\<forall>n\<in>set (requests cs). unat n + 24 \<le> 2 ^ 64"
    and "first_fits S cs"
    and "run (traced B) S cs (arena_allocator_new (b0, [])) m0 = Inr (rs, a, m)"
    and "blocks_ok (blocks (snd (base_allocator a)))"
  shows "\<exists>b ds. arena_allocator_delete (traced B) a m =
            Some (b, snd (base_allocator a) @ map (\<lambda>(p, k). Free p k) ds) \<and>
          mset ds = mset (blocks (snd (base_allocator a))) \<and>
          length ds = length (blocks (snd (base_allocator a))) \<and>
          released (snd (base_allocator a)) = []"
proof -
  from assms(4) have "segment (arena_allocator_new (b0, [])) = 0 \<longrightarrow> first_fits S cs" by simp
  from tidy_run [OF assms(1,2) tidy_new assms(3) this assms(5,6)]
  obtain xs where own: "tidy S a m xs" ..
  let ?ds = "map (\<lambda>x. (x, load_size m x)) xs"
  obtain b1 log where bl: "base_allocator a = (b1, log)" by (cases "base_allocator a")
  from own have ch: "chain m (segment a) xs" by (simp add: tidy_def)
  have d: "arena_allocator_delete (traced B) a m =
      Some (fold (\<lambda>x. base_deallocate B x (load_size m x)) xs b1,
            snd (base_allocator a) @ map (\<lambda>(p, k). Free p k) ?ds)"
    by (simp add: arena_allocator_delete_def bl destroy_loop_chain [OF ch] comp_def)
  from own have ms: "mset ?ds = mset (blocks (snd (base_allocator a)))"
    and rl: "released (snd (base_allocator a)) = []"
    by (simp_all add: tidy_def)
  from ms have "length ?ds = length (blocks (snd (base_allocator a)))"
    by (rule mset_eq_length)
  with d ms rl show ?thesis by blast
qed

theorem teardown_releases_every_segment_witness:
  "(case run (traced bump) 64 [Allocate 16, Allocate 1000, Reallocate 32 4112 16, Allocate 16,
            Deallocate 4112 16] (arena_allocator_new (4096, [])) mem1 of
      Inl e \<Rightarrow> False
    | Inr (rs, a, m) \<Rightarrow>
        requests [Allocate 16, Allocate 1000, Reallocate 32 4112 16, Allocate 16,
            Deallocate 4112 16] = [16, 1000, 32, 16] \<and>
        first_fits 64 [Allocate 16, Allocate 1000, Reallocate 32 4112 16, Allocate 16,
            Deallocate 4112 16] \<and>
        snd (base_allocator a) = [Alloc 64 4096, Alloc 1016 4160, Alloc 64 5176] \<and>
        blocks_ok (blocks (snd (base_allocator a))) \<and>
        (\<exists>b ds. arena_allocator_delete (traced bump) a m =
                  Some (b, snd (base_allocator a) @ map (\<lambda>(p, k). Free p k) ds) \<and>
                mset ds = mset [(4096, 64), (4160, 1016), (5176, 64)] \<and>
                length ds = 3))"
proof -
  let ?cs = "[Allocate 16, Allocate 1000, Reallocate 32 4112 16, Allocate 16, Deallocate 4112 16]"
  obtain rs a m where
    r: "run (traced bump) 64 ?cs (arena_allocator_new (4096, [])) mem1 = Inr (rs, a, m)"
    and l: "snd (base_allocator a) = [Alloc 64 4096, Alloc 1016 4160, Alloc 64 5176]"
    by (simp add: reallocate_def deallocate_def eval_defs)
  have rq: "requests ?cs = [16, 1000, 32, 16]" by (simp add: requests_def map_filter_simps)
  have h1: "sizeof_Segment \<le> 64" by (simp add: sizeof_Segment_def)
  have h2: "unat (64 :: size_t) \<le> 2 ^ 63" by simp
  have h3: "\<forall>n\<in>set (requests ?cs). unat n + 24 \<le> 2 ^ 64" by (simp add: rq)
  have h4: "first_fits 64 ?cs" by (simp add: first_fits_def rq eval_defs)
  have h5: "blocks_ok (blocks (snd (base_allocator a)))"
    by (simp add: l blocks_ok_def overlap_def)
  from teardown_releases_every_segment [OF h1 h2 h3 h4 r h5] rq h4 h5 show ?thesis
    unfolding r by (simp add: l numeral_3_eq_3)
qed

section \<open>\<open>reallocate\<close>\<close>

lemma copy_prefix_copies:
  fixes n :: "64 word" and dst src :: addr and m :: memory
  assumes d: "unat dst + unat n \<le> 2 ^ 64" and s: "unat src + unat n \<le> 2 ^ 64"
    and apart: "unat src + unat n \<le> unat dst \<or> unat dst + unat n \<le> unat src"
  shows "k \<le> unat n \<Longrightarrow> i < k \<Longrightarrow>
    fold (\<lambda>i mem. mem(dst + of_nat i := mem (src + of_nat i))) [0..<k] m (dst + of_nat i) =
      m (src + of_nat i)"
proof (induction k)
  case 0
  then show ?case by simp
next
  case (Suc k)
  let ?f = "fold (\<lambda>i mem. mem(dst + of_nat i := mem (src + of_nat i))) [0..<k] m"
  from Suc.prems have k: "k < unat n" and kle: "k \<le> unat n" by simp_all
  have n64: "unat n < 2 ^ 64" using unsigned_less [of n] by simp
  have off: "unat (of_nat j :: addr) = j" if "j \<le> k" for j
    using that k n64 by (simp add: unat_of_nat)
  have dj: "unat (dst + of_nat j) = unat dst + j" if "j \<le> k" for j
  proof -
    from that k d have "unat dst + unat (of_nat j :: addr) < 2 ^ 64" by (simp add: off)
    from unat_add_nowrap [OF this] show ?thesis by (simp add: off that)
  qed
  have sj: "unat (src + of_nat j) = unat src + j" if "j \<le> k" for j
  proof -
    from that k s have "unat src + unat (of_nat j :: addr) < 2 ^ 64" by (simp add: off)
    from unat_add_nowrap [OF this] show ?thesis by (simp add: off that)
  qed
  have st: "fold (\<lambda>i mem. mem(dst + of_nat i := mem (src + of_nat i))) [0..<Suc k] m =
      ?f(dst + of_nat k := ?f (src + of_nat k))"
    by (simp only: upt_Suc_append [OF le0] fold_append fold_simps o_apply id_apply)
  have "(?f(dst + of_nat k := ?f (src + of_nat k))) (dst + of_nat i) = m (src + of_nat i)"
  proof (cases "i = k")
    case True
    from apart k have "\<not> (unat dst \<le> unat (src + of_nat k) \<and> unat (src + of_nat k) < unat dst + k)"
      by (auto simp: sj)
    with copy_prefix [OF kle d, of src m] have "?f (src + of_nat k) = m (src + of_nat k)"
      by blast
    with True show ?thesis by (simp only: fun_upd_same)
  next
    case False
    with Suc.prems have ik: "i < k" by simp
    then have "unat (dst + of_nat i) \<noteq> unat (dst + of_nat k)" by (simp add: dj)
    then have ne: "dst + of_nat i \<noteq> dst + of_nat k" by auto
    show ?thesis by (simp only: fun_upd_other [OF ne] Suc.IH [OF kle ik])
  qed
  then show ?case by (simp only: st)
qed

lemma memcpy_copies:
  assumes "unat dst + unat n \<le> 2 ^ 64" and "unat src + unat n \<le> 2 ^ 64"
    and "unat src + unat n \<le> unat dst \<or> unat dst + unat n \<le> unat src"
    and "i < unat n"
  shows "memcpy dst src n m (dst + of_nat i) = m (src + of_nat i)"
  unfolding memcpy_def using copy_prefix_copies [OF assms(1-3) le_refl assms(4)] .

lemma header_stores_outside:
  assumes h: "unat h + 16 \<le> 2 ^ 64"
    and x: "\<not> (unat h \<le> unat x \<and> unat x < unat h + 16)"
  shows "store_next m h v x = m x" and "store_size m h v x = m x"
proof -
  from h x show "store_next m h v x = m x"
    unfolding store_next_def by (intro store64_outside) auto
  from h have "unat h + unat (8 :: addr) < 2 ^ 64" by simp
  from unat_add_nowrap [OF this] have u: "unat (h + 8) = unat h + 8" by simp
  from h x show "store_size m h v x = m x"
    unfolding store_size_def sizeof_size_t_def by (intro store64_outside) (auto simp: u)
qed

lemma blocks_ok_new_block:
  assumes "blocks_ok (bs @ [c])" and "b \<in> set bs" and "0 < unat (snd b)" and "0 < unat (snd c)"
  shows "b \<noteq> c"
proof
  assume "b = c"
  from assms(1,2) have "\<not> overlap (fst b) (snd b) (fst c) (snd c)"
    by (auto simp: blocks_ok_def sorted_wrt_append)
  with \<open>b = c\<close> assms(3,4) show False by (auto simp: overlap_def)
qed

lemma region_off_header:
  assumes ok: "blocks_ok bs" and b: "b \<in> set bs" and c: "c \<in> set bs"
    and c16: "16 \<le> unat (snd c)" and ind: "in_data b q k"
    and x: "unat q \<le> unat x" "unat x < unat q + unat k"
  shows "\<not> (unat (fst c) \<le> unat x \<and> unat x < unat (fst c) + 16)"
proof (cases "b = c")
  case True
  with ind x show ?thesis by (simp add: in_data_def)
next
  case False
  from ind x have "0 < unat (snd b)" by (simp add: in_data_def)
  from blocks_ok_disjoint [OF ok b c False this] c16
  have "unat (fst b) + unat (snd b) \<le> unat (fst c) \<or> unat (fst c) + unat (snd c) \<le> unat (fst b)"
    by simp
  with ind x c16 show ?thesis by (auto simp: in_data_def)
qed

lemma regions_apart:
  assumes ok: "blocks_ok bs" and b: "b \<in> set bs" and c: "c \<in> set bs" and bc: "b \<noteq> c"
    and ib: "in_data b q k" and ic: "in_data c p r"
  shows "unat q + unat k \<le> unat p \<or> unat p + unat r \<le> unat q"
proof -
  from ib have nb: "0 < unat (snd b)" by (simp add: in_data_def)
  from ic have nc: "0 < unat (snd c)" by (simp add: in_data_def)
  from blocks_ok_disjoint [OF ok b c bc nb nc] ib ic show ?thesis
    by (auto simp: in_data_def)
qed

lemma allocate_keeps_region:
  assumes S: "sizeof_Segment \<le> S" and half: "unat S \<le> 2 ^ 63"
    and big: "unat n + 24 \<le> 2 ^ 64"
    and inv: "tidy S a m xs"
    and al: "allocate (traced B) S n a m = Inr (p, a', m')"
    and ok: "blocks_ok (blocks (snd (base_allocator a')))"
    and blk: "blk \<in> set (blocks (snd (base_allocator a)))"
    and ind: "in_data blk q k"
    and below: "fst blk = segment a \<longrightarrow> unat q + unat k \<le> unat (segment a) + 16 + unat (allocated a)"
  shows "(\<forall>x. unat q \<le> unat x \<and> unat x < unat q + unat k \<longrightarrow> m' x = m x) \<and>
         (unat q + unat k \<le> unat p \<or> unat p + unat (round_size n) \<le> unat q)"
proof -
  let ?bs = "blocks (snd (base_allocator a))" and ?bs' = "blocks (snd (base_allocator a'))"
  let ?r = "round_size n" and ?s = "segment a"
  from S have S16: "16 \<le> unat S" by (simp add: word_le_nat_alt)
  note rg = round_size_grows [OF big]
  from inv have sizes: "\<forall>b\<in>set ?bs. 16 \<le> unat (snd b)"
    and head: "?s \<noteq> 0 \<Longrightarrow> (?s, S) \<in> set ?bs \<and> allocated a \<le> arena_size S"
    by (simp_all add: tidy_def)
  from sizes blk have b16: "16 \<le> unat (snd blk)" by simp
  from al show ?thesis
  proof (cases rule: allocate_Inr_cases)
    case (large q' b)
    let ?k = "sizeof_Segment + ?r"
    from large(3) have logb: "snd b = snd (base_allocator a) @ [Alloc ?k q']"
      by (rule traced_allocate_log)
    then have bs': "?bs' = ?bs @ [(q', ?k)]" by (simp add: large(6))
    from rg(2) have "unat sizeof_Segment + unat ?r < 2 ^ 64" by simp
    from unat_add_nowrap [OF this] have uk: "unat ?k = 16 + unat ?r" by simp
    from blocks_ok_bound [OF ok, of "(q', ?k)"] have qk: "unat q' + unat ?k < 2 ^ 64"
      by (simp add: bs')
    from uk have "sizeof_Segment \<le> ?k" by (simp add: word_le_nat_alt)
    from unat_plus_header [OF qk this] have up: "unat p = unat q' + 16" by (simp add: large(5))
    from head [OF large(1)] have hd: "(?s, S) \<in> set ?bs" by simp
    from blocks_ok_bound [OF ok, of "(?s, S)"] hd S16 have s16: "unat ?s + 16 \<le> 2 ^ 64"
      by (simp add: bs')
    have new: "in_data (q', ?k) p ?r" by (simp add: in_data_def up uk)
    from ok bs' blk b16 uk have ne: "blk \<noteq> (q', ?k)"
      by (intro blocks_ok_new_block [of ?bs]) auto
    have apart: "unat q + unat k \<le> unat p \<or> unat p + unat ?r \<le> unat q"
      using blk by (intro regions_apart [OF ok _ _ ne ind new]) (simp_all add: bs')
    have same: "m' x = m x" if x: "unat q \<le> unat x" "unat x < unat q + unat k" for x
    proof -
      have "\<not> (unat (fst (q', ?k)) \<le> unat x \<and> unat x < unat (fst (q', ?k)) + 16)"
        using blk uk by (intro region_off_header [OF ok _ _ _ ind x]) (simp_all add: bs')
      then have 1: "\<not> (unat q' \<le> unat x \<and> unat x < unat q' + 16)" by simp
      have "\<not> (unat (fst (?s, S)) \<le> unat x \<and> unat x < unat (fst (?s, S)) + 16)"
        using blk hd S16 by (intro region_off_header [OF ok _ _ _ ind x]) (simp_all add: bs')
      then have 2: "\<not> (unat ?s \<le> unat x \<and> unat x < unat ?s + 16)" by simp
      from qk uk have q16: "unat q' + 16 \<le> 2 ^ 64" by simp
      show ?thesis
        by (simp add: large(7) header_stores_outside [OF s16 2] header_stores_outside [OF q16 1])
    qed
    from same apart show ?thesis by blast
  next
    case (fresh q' b)
    from fresh(3) have logb: "snd b = snd (base_allocator a) @ [Alloc S q']"
      by (rule traced_allocate_log)
    then have bs': "?bs' = ?bs @ [(q', S)]" by (simp add: fresh(6))
    from blocks_ok_bound [OF ok, of "(q', S)"] have qS: "unat q' + unat S < 2 ^ 64"
      by (simp add: bs')
    from unat_plus_header [OF qS S] have up: "unat p = unat q' + 16" by (simp add: fresh(5))
    from ok bs' blk b16 S16 have ne: "blk \<noteq> (q', S)"
      by (intro blocks_ok_new_block [of ?bs]) auto
    from ind have nb: "0 < unat (snd blk)" by (simp add: in_data_def)
    from ok bs' have ok2: "blocks_ok (?bs @ [(q', S)])" by simp
    from blocks_ok_disjoint [OF ok2 _ _ ne nb] blk S16
    have d: "unat (fst blk) + unat (snd blk) \<le> unat q' \<or> unat q' + unat S \<le> unat (fst blk)"
      by simp
    have rS: "unat ?r + 16 \<le> unat S"
    proof -
      from blk have "set ?bs \<noteq> {}" by auto
      with tidy_addresses [OF inv] have "xs \<noteq> []" by auto
      with inv have "?s \<noteq> 0" by (cases xs) (auto simp: tidy_def)
      with fresh(1) show ?thesis by (simp add: word_less_nat_alt arena_size_unat [OF S])
    qed
    from d ind up rS have apart: "unat q + unat k \<le> unat p \<or> unat p + unat ?r \<le> unat q"
      by (auto simp: in_data_def)
    have same: "m' x = m x" if x: "unat q \<le> unat x" "unat x < unat q + unat k" for x
    proof -
      have "\<not> (unat (fst (q', S)) \<le> unat x \<and> unat x < unat (fst (q', S)) + 16)"
        using blk S16 by (intro region_off_header [OF ok _ _ _ ind x]) (simp_all add: bs')
      then have 1: "\<not> (unat q' \<le> unat x \<and> unat x < unat q' + 16)" by simp
      from qS S16 have q16: "unat q' + 16 \<le> 2 ^ 64" by simp
      show ?thesis by (simp add: fresh(7) header_stores_outside [OF q16 1])
    qed
    from same apart show ?thesis by blast
  next
    case bump
    from head [OF bump(1)] have hb: "(?s, S) \<in> set ?bs" and cur: "allocated a \<le> arena_size S"
      by simp_all
    from ok have ok': "blocks_ok ?bs" by (simp add: bump(5))
    note A = arena_size_unat [OF S]
    from blocks_ok_bound [OF ok' hb] have sS: "unat ?s + unat S < 2 ^ 64" by simp
    from cur have cA: "unat (allocated a) \<le> unat S - 16" by (simp add: word_le_nat_alt A)
    from bump(2) have rA: "unat ?r < unat S - 16" by (simp add: word_less_nat_alt A)
    have "unat (allocated a) + unat ?r < 2 ^ 64" using cA rA half S16 by simp
    from unat_add_nowrap [OF this]
    have sum: "unat (allocated a + ?r) = unat (allocated a) + unat ?r" .
    with bump(3) have fitb: "unat (allocated a) + unat ?r \<le> unat S - 16"
      by (simp add: word_le_nat_alt A)
    have u1: "unat (?s + sizeof_Segment) = unat ?s + 16" by (rule unat_plus_header [OF sS S])
    have "unat (?s + sizeof_Segment) + unat (allocated a) < 2 ^ 64"
      unfolding u1 using sS cA S16 by simp
    from unat_add_nowrap [OF this] have up: "unat p = unat ?s + 16 + unat (allocated a)"
      unfolding bump(4) u1 .
    have new: "in_data (?s, S) p ?r" using fitb S16 by (simp add: in_data_def up)
    have apart: "unat q + unat k \<le> unat p \<or> unat p + unat ?r \<le> unat q"
    proof (cases "blk = (?s, S)")
      case True
      with below up show ?thesis by simp
    next
      case False
      from regions_apart [OF ok' blk hb False ind new] show ?thesis .
    qed
    then show ?thesis by (simp add: bump(6))
  qed
qed

text \<open>
  C4. \<open>reallocate\<close> does not return the bytes of the old region in every state. With
  64-byte segments the first call \<open>allocate(56)\<close> on an empty arena is served by the
  second branch of \<open>allocate\<close> although its size is above \<open>arena_size() = 48\<close>: the
  region returned, 56 bytes at 4112, runs past the end of its 64-byte block at 4160.
  \<open>reallocate(64, 4112, 56)\<close> then obtains a dedicated block, which the base allocator
  places at 4160, stores the header of that block over the last eight bytes of the old
  region, and copies the 56 bytes to 4176. The byte at offset 48 was 64 before the call
  and is 0 in the region returned.
\<close>

theorem reallocate_after_oversize_first_request_loses_bytes:
  "\<exists>a1 m1 a2 m2.
     allocate (traced bump) 64 56 (arena_allocator_new (4096, [])) mem1 = Inr (4112, a1, m1) \<and>
     allocated a1 = 56 \<and> arena_size 64 = 48 \<and> \<not> in_data (4096, 64) 4112 56 \<and>
     reallocate (traced bump) 64 64 4112 56 a1 m1 = Inr (4176, a2, m2) \<and>
     blocks (snd (base_allocator a2)) = [(4096, 64), (4160, 80)] \<and>
     m1 (4112 + 48) = 64 \<and> m2 (4176 + 48) = 0"
proof -
  obtain a1 m1 where
    al: "allocate (traced bump) 64 56 (arena_allocator_new (4096, [])) mem1 = Inr (4112, a1, m1)"
    and a1: "a1 = \<lparr>base_allocator = (4160, [Alloc 64 4096]), segment = 4096, allocated = 56\<rparr>"
    and m1: "m1 = store_next (store_size mem1 4096 64) 4096 0"
    by (simp add: eval_defs)
  let ?v = "load_next (store_size m1 4160 80) 4096"
  let ?m = "store_next (store_next (store_size m1 4160 80) 4160 ?v) 4096 4160"
  have ap: "header_apart 4160 4096" by (simp add: header_apart_def sizeof_Segment_def)
  have re: "reallocate (traced bump) 64 64 4112 56 a1 m1 =
      Inr (4176, a1\<lparr>base_allocator := (4240, [Alloc 64 4096, Alloc 80 4160])\<rparr>,
           memcpy 4176 4112 56 ?m)"
    by (simp add: reallocate_def a1 eval_defs)
  have v: "?v = 0" using load_store_apart [OF ap] by (simp add: m1)
  have old: "m1 4160 = 64"
    by (simp add: m1 store_next_def store_size_def store64_def mem1_def sizeof_size_t_def)
  have hdr: "?m 4160 = 0"
    by (simp add: v store_next_def store64_def)
  have "memcpy 4176 4112 56 ?m (4176 + of_nat 48) = ?m (4112 + of_nat 48)"
    by (rule memcpy_copies) simp_all
  with hdr have new: "memcpy 4176 4112 56 ?m 4224 = 0" by simp
  have over: "arena_size 64 = 48 \<and> \<not> in_data (4096, 64) 4112 56"
    by (simp add: arena_size_def sizeof_Segment_def in_data_def)
  from al re old new over show ?thesis by (simp add: a1)
qed

text \<open>
  \<open>reallocate(newsize, p, sz)\<close> with \<open>newsize <= sz\<close> returns \<open>p\<close> and leaves the arena
  and the memory as they were, in every state and for every base allocator.
\<close>

theorem reallocate_within_old_size_returns_pointer:
  "newsize \<le> sz \<Longrightarrow> reallocate B S newsize p sz a m = Inr (p, a, m)"
  by (simp add: reallocate_def)

theorem reallocate_within_old_size_returns_pointer_witness:
  "(8 :: size_t) \<le> 16 \<and>
   reallocate (traced bump) 64 8 4112 16
     \<lparr>base_allocator = (4160, [Alloc 64 4096]), segment = 4096, allocated = 16\<rparr> mem1 =
   Inr (4112, \<lparr>base_allocator = (4160, [Alloc 64 4096]), segment = 4096, allocated = 16\<rparr>, mem1)"
  using reallocate_within_old_size_returns_pointer [of 8 16 "traced bump" 64 4112
    "\<lparr>base_allocator = (4160, [Alloc 64 4096]), segment = 4096, allocated = 16\<rparr>" mem1]
  by simp

text \<open>
  \<open>reallocate(newsize, p, sz)\<close> with \<open>newsize > sz\<close>, in a state that satisfies the
  invariant of teardown, for a region \<open>p\<close>, \<open>sz\<close> that lies in the data area of a block
  obtained from the base allocator, below the cursor when that block is the head: it
  returns what \<open>allocate(newsize)\<close> returns, a region in the data area of a block that does
  not overlap the old one and whose first \<open>sz\<close> bytes are the bytes that were at \<open>p\<close>; the
  bytes at \<open>p\<close> are still there, the base allocator was asked to release nothing, and the
  invariant holds again.
\<close>

theorem reallocate_copies_region_inside_block:
  assumes "sizeof_Segment \<le> S" and "unat S \<le> 2 ^ 63"
    and "unat newsize + 24 \<le> 2 ^ 64" and "sz < newsize"
    and "tidy S a m xs"
    and "blk \<in> set (blocks (snd (base_allocator a)))" and "in_data blk p sz"
    and "fst blk = segment a \<longrightarrow>
           unat p + unat sz \<le> unat (segment a) + 16 + unat (allocated a)"
    and "reallocate (traced B) S newsize p sz a m = Inr (q, a', m')"
    and "blocks_ok (blocks (snd (base_allocator a')))"
  shows "(\<exists>m1. allocate (traced B) S newsize a m = Inr (q, a', m1)) \<and>
         (\<exists>new\<in>set (blocks (snd (base_allocator a'))). in_data new q (round_size newsize)) \<and>
         \<not> overlap q (round_size newsize) p sz \<and>
         (\<forall>i. i < unat sz \<longrightarrow> m' (q + of_nat i) = m (p + of_nat i)) \<and>
         (\<forall>i. i < unat sz \<longrightarrow> m' (p + of_nat i) = m (p + of_nat i)) \<and>
         released (snd (base_allocator a')) = [] \<and>
         (\<exists>ys. tidy S a' m' ys)"
proof -
  let ?r = "round_size newsize"
  note S = assms(1) and half = assms(2) and big = assms(3) and grow = assms(4)
    and inv = assms(5) and blk = assms(6) and ind = assms(7) and below = assms(8)
    and re = assms(9) and ok = assms(10)
  from grow have ng: "\<not> newsize \<le> sz" by (simp add: not_le)
  with re obtain m1 where
    al: "allocate (traced B) S newsize a m = Inr (q, a', m1)" and m': "m' = memcpy q p sz m1"
    by (auto simp: reallocate_def split: sum.splits)
  from blk have "set (blocks (snd (base_allocator a))) \<noteq> {}" by auto
  with tidy_addresses [OF inv] have "xs \<noteq> []" by auto
  with inv have "segment a \<noteq> 0" by (cases xs) (auto simp: tidy_def)
  then have fit: "segment a = 0 \<longrightarrow> ?r \<le> arena_size S" by simp
  from tidy_allocate [OF S half big fit inv al ok] obtain ys new where
    t: "tidy S a' m1 ys" and new: "new \<in> set (blocks (snd (base_allocator a')))"
    and indn: "in_data new q ?r"
    by blast
  from allocate_keeps_region [OF S half big inv al ok blk ind below]
  have same: "\<And>x. unat p \<le> unat x \<Longrightarrow> unat x < unat p + unat sz \<Longrightarrow> m1 x = m x"
    and apart: "unat p + unat sz \<le> unat q \<or> unat q + unat ?r \<le> unat p"
    by blast+
  from grow round_size_grows(1) [OF big] have le: "unat sz \<le> unat ?r"
    by (simp add: word_less_nat_alt)
  from blocks_ok_bound [OF ok new] indn le have qb: "unat q + unat sz \<le> 2 ^ 64"
    by (simp add: in_data_def)
  from allocate_log [OF al] obtain es where
    "snd (base_allocator a') = snd (base_allocator a) @ es" by (auto simp: traced_def)
  with blk have blk': "blk \<in> set (blocks (snd (base_allocator a')))" by simp
  from blocks_ok_bound [OF ok blk'] ind have pb: "unat p + unat sz \<le> 2 ^ 64"
    by (simp add: in_data_def)
  from apart le have ap: "unat p + unat sz \<le> unat q \<or> unat q + unat sz \<le> unat p" by auto
  have off: "unat (p + of_nat i) = unat p + i" if "i < unat sz" for i
  proof -
    have "unat sz < 2 ^ 64" using unsigned_less [of sz] by simp
    with that have u: "unat (of_nat i :: addr) = i" by (simp add: unat_of_nat)
    with that pb have "unat p + unat (of_nat i :: addr) < 2 ^ 64" by simp
    from unat_add_nowrap [OF this] show ?thesis by (simp add: u)
  qed
  have copied: "m' (q + of_nat i) = m (p + of_nat i)" if "i < unat sz" for i
  proof -
    from memcpy_copies [OF qb pb ap that] have "m' (q + of_nat i) = m1 (p + of_nat i)"
      by (simp add: m')
    also from that have "m1 (p + of_nat i) = m (p + of_nat i)"
      by (intro same) (simp_all add: off)
    finally show ?thesis .
  qed
  have kept: "m' (p + of_nat i) = m (p + of_nat i)" if "i < unat sz" for i
  proof -
    from that ap have "\<not> (unat q \<le> unat (p + of_nat i) \<and> unat (p + of_nat i) < unat q + unat sz)"
      by (auto simp: off)
    from memcpy_outside [OF qb this] have "m' (p + of_nat i) = m1 (p + of_nat i)"
      by (simp add: m')
    also from that have "m1 (p + of_nat i) = m (p + of_nat i)"
      by (intro same) (simp_all add: off)
    finally show ?thesis .
  qed
  from apart have no: "\<not> overlap q ?r p sz" by (auto simp: overlap_def)
  from tidy_memcpy [OF t ok new indn le] have t': "tidy S a' m' ys" by (simp add: m')
  then have rl: "released (snd (base_allocator a')) = []" by (simp add: tidy_def)
  from al new indn no copied kept rl t' show ?thesis by blast
qed

theorem reallocate_copies_region_inside_block_witness:
  "\<exists>a m a' m'.
     allocate (traced bump) 64 16 (arena_allocator_new (4096, [])) mem1 = Inr (4112, a, m) \<and>
     sizeof_Segment \<le> 64 \<and> unat (64 :: size_t) \<le> 2 ^ 63 \<and>
     unat (32 :: size_t) + 24 \<le> 2 ^ 64 \<and> (16 :: size_t) < 32 \<and>
     tidy 64 a m [4096] \<and>
     blocks (snd (base_allocator a)) = [(4096, 64)] \<and> in_data (4096, 64) 4112 16 \<and>
     segment a = 4096 \<and> allocated a = 16 \<and>
     reallocate (traced bump) 64 32 4112 16 a m = Inr (4128, a', m') \<and>
     blocks_ok (blocks (snd (base_allocator a'))) \<and>
     allocated a' = 48 \<and>
     m (4112 + 3) = 19 \<and> m' (4128 + 3) = 19 \<and> m' (4112 + 3) = 19 \<and>
     \<not> overlap 4128 (round_size 32) 4112 16 \<and>
     released (snd (base_allocator a')) = []"
proof -
  let ?a = "\<lparr>base_allocator = (4160 :: addr, [Alloc 64 4096]), segment = 4096, allocated = 16\<rparr>"
  let ?m = "store_next (store_size mem1 4096 64) 4096 0"
  let ?a' = "\<lparr>base_allocator = (4160 :: addr, [Alloc 64 4096]), segment = 4096, allocated = 48\<rparr>"
  let ?m' = "memcpy 4128 4112 16 ?m"
  have al: "allocate (traced bump) 64 16 (arena_allocator_new (4096, [])) mem1 = Inr (4112, ?a, ?m)"
    by (simp add: eval_defs)
  have re: "reallocate (traced bump) 64 32 4112 16 ?a ?m = Inr (4128, ?a', ?m')"
    by (simp add: reallocate_def eval_defs)
  have h1: "sizeof_Segment \<le> 64" by (simp add: sizeof_Segment_def)
  have h2: "unat (64 :: size_t) \<le> 2 ^ 63" by simp
  have h3: "unat (32 :: size_t) + 24 \<le> 2 ^ 64" by simp
  have h4: "(16 :: size_t) < 32" by simp
  have h5: "tidy 64 ?a ?m [4096]" by (simp add: tidy_def eval_defs)
  have h6: "(4096, 64) \<in> set (blocks (snd (base_allocator ?a)))" by simp
  have h7: "in_data (4096, 64) 4112 16" by (simp add: in_data_def)
  have h8: "fst (4096 :: addr, 64 :: size_t) = segment ?a \<longrightarrow>
      unat (4112 :: addr) + unat (16 :: size_t) \<le> unat (segment ?a) + 16 + unat (allocated ?a)"
    by simp
  have h9: "blocks_ok (blocks (snd (base_allocator ?a')))"
    by (simp add: blocks_ok_def overlap_def)
  from reallocate_copies_region_inside_block [OF h1 h2 h3 h4 h5 h6 h7 h8 re h9]
  have no: "\<not> overlap 4128 (round_size 32) 4112 16"
    and c1: "\<forall>i. i < unat (16 :: size_t) \<longrightarrow> ?m' (4128 + of_nat i) = ?m (4112 + of_nat i)"
    and c2: "\<forall>i. i < unat (16 :: size_t) \<longrightarrow> ?m' (4112 + of_nat i) = ?m (4112 + of_nat i)"
    and rl: "released (snd (base_allocator ?a')) = []"
    by blast+
  have v: "?m 4115 = 19"
    by (simp add: store_next_def store_size_def store64_def mem1_def sizeof_size_t_def)
  from c1 [rule_format, of 3] v have v1: "?m' 4131 = 19" by simp
  from c2 [rule_format, of 3] v have v2: "?m' 4115 = 19" by simp
  from al re h1 h2 h5 h7 h9 no rl v v1 v2 show ?thesis
    by (intro exI [of _ ?a] exI [of _ ?m] exI [of _ ?a'] exI [of _ ?m']) simp
qed

section \<open>The wrappers' operators\<close>

text \<open>
  C8. \<open>a == b\<close> holds exactly when the two wrappers hold the address of the same base
  allocator object (whatever the objects stored at the two addresses are), and
  \<open>a != b\<close> exactly when \<open>a == b\<close> does not.
\<close>

theorem shared_allocator_equality_is_identity:
  "shared_eq left right = (base left = base right) \<and>
   shared_ne left right = (\<not> shared_eq left right)"
  by (simp add: shared_eq_def shared_ne_def)

text \<open>
  C9. Assignment changes nothing: after \<open>s = s2\<close> the wrapper \<open>s\<close> holds the reference it
  held, and after \<open>a = a2\<close> the arena \<open>a\<close> has the base allocator, the head pointer
  \<open>segment\<close> (hence the chain that hangs from it in memory, which assignment does not
  touch) and the cursor it had.
\<close>

theorem assignment_is_a_no_op:
  "shared_assign s s2 = s \<and> base (shared_assign s s2) = base s \<and>
   arena_assign a a2 = a \<and>
   base_allocator (arena_assign a a2) = base_allocator a \<and>
   segment (arena_assign a a2) = segment a \<and>
   allocated (arena_assign a a2) = allocated a"
  by (simp add: shared_assign_def arena_assign_def)

end
